theory Spec2Isabelle
  imports Main "HOL-Library.AList" "HOL-Library.Signed_Division"
begin

section \<open>Go integers, instants and durations\<close>

text \<open>
  Go's \<open>int64\<close> is modelled as \<open>int\<close> with the two's-complement wrap-around written out.
  \<open>/\<close> and \<open>%\<close> on Go integers truncate towards zero: they are \<open>sdiv\<close> and \<open>smod\<close>.
\<close>

definition wrap64 :: "int \<Rightarrow> int" where
  "wrap64 x = (x + 2 ^ 63) mod 2 ^ 64 - 2 ^ 63"

definition quo64 :: "int \<Rightarrow> int \<Rightarrow> int" where
  "quo64 a b = wrap64 (a sdiv b)"

definition rem64 :: "int \<Rightarrow> int \<Rightarrow> int" where
  "rem64 a b = a smod b"

definition add64 :: "int \<Rightarrow> int \<Rightarrow> int" where
  "add64 a b = wrap64 (a + b)"

definition mul64 :: "int \<Rightarrow> int \<Rightarrow> int" where
  "mul64 a b = wrap64 (a * b)"

text \<open>
  A \<open>time.Time\<close> is an instant, counted here in nanoseconds since the Unix epoch.
  Its range is far wider than that of \<open>int64\<close> nanoseconds, so \<open>Add\<close>, \<open>After\<close> and
  \<open>Before\<close> are exact, and only \<open>UnixNano\<close> wraps. A \<open>time.Duration\<close> is an \<open>int64\<close>
  of nanoseconds.
\<close>

type_synonym Time = int
type_synonym Duration = int

definition Millisecond :: Duration where
  "Millisecond = 1000000"

definition Second :: Duration where
  "Second = 1000000000"

definition UnixNano :: "Time \<Rightarrow> int" where
  "UnixNano t = wrap64 t"

definition Unix0 :: "int \<Rightarrow> Time" where
  \<comment> \<open>\<open>time.Unix(0, nsec)\<close>\<close>
  "Unix0 nsec = nsec"

definition Add :: "Time \<Rightarrow> Duration \<Rightarrow> Time" where
  "Add t d = t + d"

definition After :: "Time \<Rightarrow> Time \<Rightarrow> bool" where
  "After t u = (u < t)"

definition Before :: "Time \<Rightarrow> Time \<Rightarrow> bool" where
  "Before t u = (t < u)"

definition zeroTime :: Time where
  \<comment> \<open>January 1, year 1, 00:00:00 UTC: the zero \<open>time.Time\<close>\<close>
  "zeroTime = - 62135596800 * 1000000000"

definition IsZero :: "Time \<Rightarrow> bool" where
  "IsZero t = (t = zeroTime)"

section \<open>Contexts\<close>

text \<open>
  The contexts of package \<open>context\<close> live in a heap, a list indexed by handle; a new
  context takes the next index. Of a context the model keeps what \<open>Deadline()\<close> returns
  and whether it has been cancelled (by its cancel function, or at birth by a parent that
  was cancelled already). The firing of the runtime timer at the deadline is not modelled.
\<close>

record ctx =
  c_deadline :: "Time option"
  cancelled :: bool

type_synonym heap = "ctx list"

definition backgroundCtx :: ctx where
  \<comment> \<open>\<open>context.Background()\<close>: no deadline, never cancelled\<close>
  "backgroundCtx = \<lparr>c_deadline = None, cancelled = False\<rparr>"

definition childCtx :: "ctx \<Rightarrow> Time \<Rightarrow> ctx" where
  \<comment> \<open>the context \<open>context.WithDeadline(parent, d)\<close> returns: its deadline is the
      parent's when that is earlier than \<open>d\<close>, and \<open>d\<close> otherwise; the child of a
      cancelled parent is cancelled from the start\<close>
  "childCtx parent d =
     \<lparr>c_deadline =
        (case c_deadline parent of
           Some cur \<Rightarrow> if Before cur d then Some cur else Some d
         | None \<Rightarrow> Some d),
      cancelled = cancelled parent\<rparr>"

definition WithDeadline :: "heap \<Rightarrow> ctx \<Rightarrow> Time \<Rightarrow> nat \<times> heap" where
  "WithDeadline h parent d = (length h, h @ [childCtx parent d])"

definition cancel_ctx :: "nat \<Rightarrow> heap \<Rightarrow> heap" where
  \<comment> \<open>calling the \<open>context.CancelFunc\<close> of context \<open>c\<close>\<close>
  "cancel_ctx c h = (if c < length h then h[c := (h ! c)\<lparr>cancelled := True\<rparr>] else h)"

definition Deadline_of :: "heap \<Rightarrow> nat \<Rightarrow> Time" where
  \<comment> \<open>\<open>deadline, _ := c.Deadline()\<close>: the zero time when there is none\<close>
  "Deadline_of h c =
     (if c < length h then (case c_deadline (h ! c) of Some d \<Rightarrow> d | None \<Rightarrow> zeroTime)
      else zeroTime)"

section \<open>The timeline\<close>

record deadline =
  d_context :: nat
  d_cancel :: nat

text \<open>
  The fields \<open>context\<close> and \<open>cancel\<close> of the struct \<open>deadline\<close> are \<open>d_context\<close> and
  \<open>d_cancel\<close> here: the handle of the context, and the handle of the context that the
  cancel function cancels. The bucket map is an association list with distinct keys;
  \<open>None\<close> is Go's nil map. The mutex is left out: one call runs at a time.
\<close>

record Timeline =
  Resolution :: Duration
  Background :: "ctx option"
  deadlines :: "(int \<times> deadline) list option"
  cleanupLock :: int
  cleanupTime :: int

datatype panic = Int63nInvalidArgument

definition entries :: "(int \<times> deadline) list option \<Rightarrow> (int \<times> deadline) list" where
  \<comment> \<open>what \<open>range\<close> visits: nothing on a nil map\<close>
  "entries m = (case m of None \<Rightarrow> [] | Some ds \<Rightarrow> ds)"

definition lookup :: "(int \<times> deadline) list option \<Rightarrow> int \<Rightarrow> deadline option" where
  \<comment> \<open>\<open>d, ok := m[k]\<close>: not found on a nil map\<close>
  "lookup m k = map_of (entries m) k"

definition resolution :: "Timeline \<Rightarrow> Duration" where
  "resolution t = (if Resolution t \<noteq> 0 then Resolution t else 100 * Millisecond)"

definition background :: "Timeline \<Rightarrow> ctx" where
  "background t = (case Background t of Some b \<Rightarrow> b | None \<Rightarrow> backgroundCtx)"

definition makeDeadline :: "heap \<Rightarrow> ctx \<Rightarrow> Time \<Rightarrow> deadline \<times> heap" where
  "makeDeadline h parent expiration =
     (case WithDeadline h parent expiration of
        (c, h') \<Rightarrow> (\<lparr>d_context = c, d_cancel = c\<rparr>, h'))"

text \<open>
  \<open>rand.Int63n(n)\<close> panics when \<open>n \<le> 0\<close> and otherwise returns the accepted raw draw
  modulo \<open>n\<close>. The raw draw is a parameter of the model.
\<close>

definition jitter :: "Duration \<Rightarrow> nat \<Rightarrow> panic + Duration" where
  "jitter d rnd = (if d \<le> 0 then Inl Int63nInvalidArgument else Inr (int rnd mod d))"

definition jitterTime :: "Time \<Rightarrow> Duration \<Rightarrow> nat \<Rightarrow> panic + Time" where
  "jitterTime t d rnd = (case jitter d rnd of Inl e \<Rightarrow> Inl e | Inr x \<Rightarrow> Inr (Add t x))"

definition bucketKey :: "int \<Rightarrow> int \<Rightarrow> int" where
  \<comment> \<open>lines 95 to 97 of \<open>Context\<close>, with \<open>r\<close> the resolution and \<open>k\<close> the nanoseconds of \<open>at\<close>\<close>
  "bucketKey r k = (if rem64 k r \<noteq> 0 then mul64 (add64 (quo64 k r) 1) r else k)"

definition Cancel :: "Timeline \<Rightarrow> heap \<Rightarrow> Timeline \<times> heap" where
  "Cancel t h =
     (t\<lparr>deadlines := None\<rparr>,
      fold (\<lambda>(k, d) h'. cancel_ctx (d_cancel d) h') (entries (deadlines t)) h)"

definition nextCleanupTime :: "Timeline \<Rightarrow> Time \<Rightarrow> Time" where
  "nextCleanupTime t lastCleanupTime = Add lastCleanupTime (mul64 100 (resolution t))"

definition loadCleanupTime :: "Timeline \<Rightarrow> Time" where
  "loadCleanupTime t = Unix0 (cleanupTime t)"

definition storeCleanupTime :: "Timeline \<Rightarrow> Time \<Rightarrow> Timeline" where
  "storeCleanupTime t ct = t\<lparr>cleanupTime := UnixNano ct\<rparr>"

definition tryLockCleanup :: "Timeline \<Rightarrow> bool \<times> Timeline" where
  "tryLockCleanup t = (if cleanupLock t = 0 then (True, t\<lparr>cleanupLock := 1\<rparr>) else (False, t))"

definition unlockCleanup :: "Timeline \<Rightarrow> Timeline" where
  "unlockCleanup t = t\<lparr>cleanupLock := 0\<rparr>"

text \<open>
  The loop of \<open>cleanup\<close>: \<open>es\<close> are the entries still to visit, \<open>m\<close> is the map. The only
  deletion is that of the entry being visited, so every entry is visited once.
\<close>

fun cleanup_loop ::
  "Time \<Rightarrow> Duration \<Rightarrow> (int \<times> deadline) list \<Rightarrow> (int \<times> deadline) list \<Rightarrow> heap
     \<Rightarrow> (int \<times> deadline) list \<times> heap" where
  "cleanup_loop now r [] m h = (m, h)"
| "cleanup_loop now r ((k, d) # es) m h =
     (if After now (Add (Deadline_of h (d_context d)) r)
      then cleanup_loop now r es (AList.delete k m) (cancel_ctx (d_cancel d) h)
      else cleanup_loop now r es m h)"

definition cleanup :: "Timeline \<Rightarrow> heap \<Rightarrow> Time \<Rightarrow> Timeline \<times> heap" where
  "cleanup t h now =
     (case deadlines t of
        None \<Rightarrow> (t, h)
      | Some ds \<Rightarrow>
          (case cleanup_loop now (resolution t) ds ds h of
             (m, h') \<Rightarrow> (t\<lparr>deadlines := Some m\<rparr>, h')))"

definition maybeCleanup :: "Timeline \<Rightarrow> heap \<Rightarrow> Time \<Rightarrow> Timeline \<times> heap" where
  \<comment> \<open>lines 121 to 127 of \<open>Context\<close>\<close>
  "maybeCleanup t h now =
     (let ct = loadCleanupTime t in
      if IsZero ct \<or> Before ct now then
        (case tryLockCleanup t of
           (True, t1) \<Rightarrow>
             (case cleanup (storeCleanupTime t1 (nextCleanupTime t1 ct)) h now of
                (t2, h2) \<Rightarrow> (unlockCleanup t2, h2))
         | (False, t1) \<Rightarrow> (t1, h))
      else (t, h))"

definition getOrCreate ::
  "Timeline \<Rightarrow> heap \<Rightarrow> int \<Rightarrow> int \<Rightarrow> nat \<Rightarrow> panic + (deadline \<times> Timeline \<times> heap)" where
  \<comment> \<open>lines 107 to 119 of \<open>Context\<close>: the second look at the map and the creation\<close>
  "getOrCreate t h k r rnd =
     (case lookup (deadlines t) k of
        Some d \<Rightarrow> Inr (d, t, h)
      | None \<Rightarrow>
          (case jitterTime (Unix0 k) r rnd of
             Inl e \<Rightarrow> Inl e
           | Inr expiration \<Rightarrow>
               (case makeDeadline h (background t) expiration of
                  (d, h') \<Rightarrow>
                    Inr (d, t\<lparr>deadlines := Some (AList.update k d (entries (deadlines t)))\<rparr>, h'))))"

definition Context ::
  "Timeline \<Rightarrow> heap \<Rightarrow> Time \<Rightarrow> Time \<Rightarrow> nat \<Rightarrow> panic + (nat \<times> Timeline \<times> heap)" where
  "Context t h at now rnd =
     (let r = resolution t;
          k = bucketKey r (UnixNano at)
      in case lookup (deadlines t) k of
           Some d \<Rightarrow> Inr (d_context d, t, h)
         | None \<Rightarrow>
             (case getOrCreate t h k r rnd of
                Inl e \<Rightarrow> Inl e
              | Inr (d, t1, h1) \<Rightarrow>
                  (case maybeCleanup t1 h1 now of
                     (t2, h2) \<Rightarrow> Inr (d_context d, t2, h2))))"

definition Timeout ::
  "Timeline \<Rightarrow> heap \<Rightarrow> Time \<Rightarrow> Duration \<Rightarrow> nat \<Rightarrow> panic + (nat \<times> Timeline \<times> heap)" where
  \<comment> \<open>\<open>clock\<close> is what \<open>time.Now()\<close> returns\<close>
  "Timeout t h clock timeout rnd = Context t h (Add clock timeout) clock rnd"

definition Deadline ::
  "Timeline \<Rightarrow> heap \<Rightarrow> Time \<Rightarrow> Time \<Rightarrow> nat \<Rightarrow> panic + (nat \<times> Timeline \<times> heap)" where
  "Deadline t h clock dl rnd = Context t h dl clock rnd"

definition zeroTimeline :: "Duration \<Rightarrow> ctx option \<Rightarrow> Timeline" where
  \<comment> \<open>a \<open>Timeline\<close> literal: the configuration set, everything else zero\<close>
  "zeroTimeline r b =
     \<lparr>Resolution = r, Background = b, deadlines = None, cleanupLock = 0, cleanupTime = 0\<rparr>"

definition HighRes :: Timeline where
  "HighRes = zeroTimeline (10 * Millisecond) None"

definition LowRes :: Timeline where
  "LowRes = zeroTimeline (1 * Second) None"

section \<open>Specification-side notions\<close>

text \<open>
  The ceiling of \<open>x\<close> to a multiple of \<open>r\<close>, as the specification words it: the smallest
  multiple of \<open>r\<close> that is at least \<open>x\<close> (lemma \<open>ceilingMultiple_least\<close>).
\<close>

definition ceilingMultiple :: "int \<Rightarrow> int \<Rightarrow> int" where
  "ceilingMultiple r x = - ((- x) div r) * r"

text \<open>
  The states the operations produce. A bucket context never outlives its heap, its cancel
  function is its own, no two buckets share a key or a context, and the deadline of the
  bucket at key \<open>k\<close> is what \<open>WithDeadline\<close> made of the boundary \<open>k\<close>, a jitter below
  the resolution and the deadline of the background context, if it has one.
\<close>

definition deadline_ok :: "Time option \<Rightarrow> Duration \<Rightarrow> int \<Rightarrow> Time \<Rightarrow> bool" where
  "deadline_ok bg r k dl =
     (case bg of
        None \<Rightarrow> k \<le> dl \<and> dl < k + r
      | Some b \<Rightarrow> (k \<le> dl \<and> dl < k + r \<and> dl \<le> b) \<or> (dl = b \<and> b < k + r))"

definition entry_ok :: "Timeline \<Rightarrow> heap \<Rightarrow> int \<times> deadline \<Rightarrow> bool" where
  "entry_ok t h e =
     (d_context (snd e) < length h \<and> d_cancel (snd e) = d_context (snd e) \<and>
      (case c_deadline (h ! d_context (snd e)) of
         None \<Rightarrow> False
       | Some dl \<Rightarrow> deadline_ok (c_deadline (background t)) (resolution t) (fst e) dl))"

definition valid :: "Timeline \<Rightarrow> heap \<Rightarrow> bool" where
  "valid t h =
     (distinct (map fst (entries (deadlines t))) \<and>
      distinct (map (\<lambda>e. d_context (snd e)) (entries (deadlines t))) \<and>
      list_all (entry_ok t h) (entries (deadlines t)) \<and>
      (entries (deadlines t) = [] \<or> 0 < resolution t))"

text \<open>
  The test the loop of \<open>cleanup\<close> makes on an entry, and the heap after the cancel
  functions of a list of entries have run.
\<close>

definition expired :: "Time \<Rightarrow> Duration \<Rightarrow> heap \<Rightarrow> int \<times> deadline \<Rightarrow> bool" where
  "expired now r h e = After now (Add (Deadline_of h (d_context (snd e))) r)"

primrec cancel_all :: "(int \<times> deadline) list \<Rightarrow> heap \<Rightarrow> heap" where
  "cancel_all [] h = h"
| "cancel_all (e # es) h = cancel_all es (cancel_ctx (d_cancel (snd e)) h)"

text \<open>
  What the creation path of \<open>Context\<close> builds: the new entry, and the timeline with the
  entry stored at key \<open>k\<close>.
\<close>

definition newEntry :: "heap \<Rightarrow> deadline" where
  "newEntry h = \<lparr>d_context = length h, d_cancel = length h\<rparr>"

definition created :: "Timeline \<Rightarrow> heap \<Rightarrow> int \<Rightarrow> Timeline" where
  "created t h k = t\<lparr>deadlines := Some (entries (deadlines t) @ [(k, newEntry h)])\<rparr>"

definition withChild :: "Timeline \<Rightarrow> heap \<Rightarrow> int \<Rightarrow> nat \<Rightarrow> heap" where
  "withChild t h k rnd = h @ [childCtx (background t) (k + int rnd mod resolution t)]"

text \<open>
  A context handle that the map holds at key \<open>k1\<close> only is never stored at another key
  later: new entries get new handles.
\<close>

definition owned :: "nat \<Rightarrow> int \<Rightarrow> Timeline \<Rightarrow> heap \<Rightarrow> bool" where
  "owned c k1 t h =
     (c < length h \<and> (\<forall>k d. lookup (deadlines t) k = Some d \<and> d_context d = c \<longrightarrow> k = k1))"

text \<open>
  The test that lets a call of \<open>Context\<close> sweep after a cache miss: the stored time is
  before \<open>now\<close> (or zero), and the gate is free.
\<close>

definition cleanupDue :: "Timeline \<Rightarrow> Time \<Rightarrow> bool" where
  "cleanupDue t now =
     ((IsZero (loadCleanupTime t) \<or> Before (loadCleanupTime t) now) \<and> fst (tryLockCleanup t))"

text \<open>
  Runs of operations on a timeline: calls of \<open>Context\<close>, each with its \<open>at\<close>, its
  \<open>now\<close> and its raw draw, and calls of \<open>Cancel\<close>. \<open>kept k\<close> says that the map has an
  entry at key \<open>k\<close> before and after every operation of the run; \<open>calm limit\<close> that
  the run has no \<open>Cancel\<close> and no \<open>Context\<close> call with \<open>now\<close> after \<open>limit\<close>.
\<close>

datatype operation = DoContext Time Time nat | DoCancel

fun step :: "Timeline \<Rightarrow> heap \<Rightarrow> operation \<Rightarrow> panic + (Timeline \<times> heap)" where
  "step t h (DoContext at now rnd) =
     (case Context t h at now rnd of Inl e \<Rightarrow> Inl e | Inr (c, t', h') \<Rightarrow> Inr (t', h'))"
| "step t h DoCancel = Inr (Cancel t h)"

fun run :: "Timeline \<Rightarrow> heap \<Rightarrow> operation list \<Rightarrow> panic + (Timeline \<times> heap)" where
  "run t h [] = Inr (t, h)"
| "run t h (x # xs) = (case step t h x of Inl e \<Rightarrow> Inl e | Inr (t', h') \<Rightarrow> run t' h' xs)"

fun kept :: "int \<Rightarrow> Timeline \<Rightarrow> heap \<Rightarrow> operation list \<Rightarrow> bool" where
  "kept k t h [] = (lookup (deadlines t) k \<noteq> None)"
| "kept k t h (x # xs) =
     (lookup (deadlines t) k \<noteq> None \<and>
      (case step t h x of Inl e \<Rightarrow> False | Inr (t', h') \<Rightarrow> kept k t' h' xs))"

fun calm :: "Time \<Rightarrow> operation list \<Rightarrow> bool" where
  "calm limit [] = True"
| "calm limit (DoContext at now rnd # xs) = (\<not> After now limit \<and> calm limit xs)"
| "calm limit (DoCancel # xs) = False"

text \<open>
  Callers of \<open>Context\<close> that have all missed key \<open>k\<close> on the fast path. The exclusive
  lock lets one of them at a time through lines 110 to 119, so what they do from there
  is a list of events in some order: \<open>Locked rnd\<close>, a caller runs the locked section
  with its raw draw; \<open>Swept now\<close>, a caller that is through it runs lines 121 to 127
  with its \<open>now\<close>. \<open>race\<close> returns the context handles the callers receive, in the
  order of their locked sections. \<open>undisturbed\<close> says that no sweep of the list changes
  what the map holds at \<open>k\<close>.
\<close>

datatype event = Locked nat | Swept Time

fun race ::
  "Timeline \<Rightarrow> heap \<Rightarrow> int \<Rightarrow> event list \<Rightarrow> panic + (nat list \<times> Timeline \<times> heap)" where
  "race t h k [] = Inr ([], t, h)"
| "race t h k (Locked rnd # es) =
     (case getOrCreate t h k (resolution t) rnd of
        Inl e \<Rightarrow> Inl e
      | Inr (d, t', h') \<Rightarrow>
          (case race t' h' k es of
             Inl e \<Rightarrow> Inl e
           | Inr (cs, t'', h'') \<Rightarrow> Inr (d_context d # cs, t'', h'')))"
| "race t h k (Swept now # es) =
     (case maybeCleanup t h now of (t', h') \<Rightarrow> race t' h' k es)"

fun undisturbed :: "int \<Rightarrow> Timeline \<Rightarrow> heap \<Rightarrow> event list \<Rightarrow> bool" where
  "undisturbed k t h [] = True"
| "undisturbed k t h (Locked rnd # es) =
     (case getOrCreate t h k (resolution t) rnd of
        Inl e \<Rightarrow> True
      | Inr (d, t', h') \<Rightarrow> undisturbed k t' h' es)"
| "undisturbed k t h (Swept now # es) =
     (case maybeCleanup t h now of
        (t', h') \<Rightarrow> lookup (deadlines t') k = lookup (deadlines t) k \<and> undisturbed k t' h' es)"

fun lockedCount :: "event list \<Rightarrow> nat" where
  "lockedCount [] = 0"
| "lockedCount (Locked rnd # es) = Suc (lockedCount es)"
| "lockedCount (Swept now # es) = lockedCount es"

section \<open>Integer arithmetic\<close>

lemma wrap64_id: "- (2 ^ 63) \<le> x \<Longrightarrow> x < 2 ^ 63 \<Longrightarrow> wrap64 x = x"
  by (simp add: wrap64_def)

lemma div_mult_le: "0 < r \<Longrightarrow> (x::int) div r * r \<le> x"
  using div_mult_mod_eq [of x r] pos_mod_sign [of r x] by linarith

lemma ceilingMultiple_least:
  assumes "0 < r"
  shows "r dvd ceilingMultiple r x" and "x \<le> ceilingMultiple r x"
    and "r dvd m \<Longrightarrow> x \<le> m \<Longrightarrow> ceilingMultiple r x \<le> m"
proof -
  show "r dvd ceilingMultiple r x" by (simp add: ceilingMultiple_def)
  have "(- x) div r * r \<le> - x"
    using assms by (rule div_mult_le)
  then show "x \<le> ceilingMultiple r x" by (simp add: ceilingMultiple_def)
  assume "r dvd m" "x \<le> m"
  then obtain q where m: "m = q * r" by (auto simp: dvd_def mult.commute)
  have "- m \<le> - x" using \<open>x \<le> m\<close> by simp
  then have "(- m) div r \<le> (- x) div r" using assms by (simp add: zdiv_mono1)
  moreover have "(- m) div r = - q"
  proof -
    have "(- m) div r = ((- q) * r) div r" by (simp add: m)
    also have "\<dots> = - q" using assms by (intro nonzero_mult_div_cancel_right) simp
    finally show ?thesis .
  qed
  ultimately have "- ((- x) div r) \<le> q" by simp
  then have "- ((- x) div r) * r \<le> q * r" using assms by (simp only: mult_right_mono less_imp_le)
  then show "ceilingMultiple r x \<le> m" by (simp only: ceilingMultiple_def m)
qed

lemma sdiv_nonneg: "0 \<le> k \<Longrightarrow> 0 < r \<Longrightarrow> (k::int) sdiv r = k div r"
  by (cases "k = 0") (simp_all add: signed_divide_int_def)

lemma smod_nonneg: "0 \<le> k \<Longrightarrow> 0 < r \<Longrightarrow> (k::int) smod r = k mod r"
  by (cases "k = 0") (simp_all add: signed_modulo_int_def)

text \<open>
  From the epoch on, and short of the overflow of \<open>int64\<close>, the key is the ceiling.
\<close>

lemma bucketKey_nonneg:
  assumes "0 < r" "0 \<le> k" "k + r < 2 ^ 63"
  shows "bucketKey r k = (if k mod r = 0 then k else (k div r + 1) * r)"
proof -
  have q0: "0 \<le> k div r" using assms by (simp add: pos_imp_zdiv_nonneg_iff)
  have qk: "k div r * r \<le> k" using assms by (simp add: div_mult_le)
  have r1: "1 \<le> r" using assms by simp
  have "k div r \<le> k div r * r" using mult_left_mono [OF r1 q0] by simp
  then have q1: "k div r < 2 ^ 63" using qk assms by linarith
  have e: "(k div r + 1) * r = k div r * r + r" by (simp add: algebra_simps)
  have "k div r + 1 \<le> (k div r + 1) * r"
    using mult_left_mono [OF r1, of "k div r + 1"] q0 by simp
  then have q2: "k div r + 1 < 2 ^ 63" using e qk assms by linarith
  have q3: "(k div r + 1) * r < 2 ^ 63" using e qk assms by linarith
  have q4: "0 \<le> (k div r + 1) * r" using q0 assms by simp
  have w1: "wrap64 (k div r) = k div r" using q0 q1 by (intro wrap64_id) linarith+
  have w2: "wrap64 (k div r + 1) = k div r + 1" using q0 q2 by (intro wrap64_id) linarith+
  have w3: "wrap64 ((k div r + 1) * r) = (k div r + 1) * r" using q4 q3 by (intro wrap64_id) linarith+
  show ?thesis
    using assms by (simp add: bucketKey_def rem64_def quo64_def add64_def mul64_def
        sdiv_nonneg smod_nonneg w1 w2 w3)
qed

lemma bucketKey_nonneg_ceiling:
  assumes "0 < r" "0 \<le> k" "k + r < 2 ^ 63"
  shows "bucketKey r k = ceilingMultiple r k"
proof (cases "k mod r = 0")
  case True
  then have "r dvd k" by auto
  then obtain q where "k = r * q" by (auto simp: dvd_def)
  then show ?thesis using assms True by (simp add: bucketKey_nonneg ceilingMultiple_def)
next
  case False
  have "(- k) div r = - (k div r) - 1" using False assms by (simp add: zdiv_zminus1_eq_if)
  then show ?thesis using assms False by (simp add: bucketKey_nonneg ceilingMultiple_def)
qed

lemma ceilingMultiple_mono:
  assumes "0 < r" "a \<le> b"
  shows "ceilingMultiple r a \<le> ceilingMultiple r b"
proof -
  have "r dvd ceilingMultiple r b" "b \<le> ceilingMultiple r b"
    using assms(1) by (rule ceilingMultiple_least)+
  then show ?thesis using assms ceilingMultiple_least(3) [of r "ceilingMultiple r b" a] by simp
qed

lemma bucketKey_mono_nonneg:
  assumes "0 < r" "0 \<le> a" "a \<le> b" "b + r < 2 ^ 63"
  shows "bucketKey r a \<le> bucketKey r b"
proof -
  have "bucketKey r a = ceilingMultiple r a" using assms by (intro bucketKey_nonneg_ceiling) simp_all
  moreover have "bucketKey r b = ceilingMultiple r b"
    using assms by (intro bucketKey_nonneg_ceiling) simp_all
  ultimately show ?thesis using ceilingMultiple_mono [OF assms(1,3)] by simp
qed

text \<open>
  Before the epoch, a timestamp that is not a multiple of the resolution gets the key one
  resolution above its ceiling.
\<close>

lemma bucketKey_negative:
  assumes "0 < r" "k < 0" "k mod r \<noteq> 0" "- (2 ^ 63) < k" "r < 2 ^ 63"
  shows "bucketKey r k = ceilingMultiple r k + r"
proof -
  let ?q = "(- k) div r"
  have k0: "k \<noteq> 0" using assms(2) by simp
  have q0: "0 \<le> ?q" using assms by (simp add: pos_imp_zdiv_nonneg_iff)
  have qk: "?q * r \<le> - k" using assms(1) by (rule div_mult_le)
  have r1: "1 \<le> r" using assms(1) by simp
  have qle: "?q \<le> ?q * r" using mult_left_mono [OF r1 q0] by simp
  have sd: "k sdiv r = - ?q" using assms(1,2) by (simp add: signed_divide_int_def)
  have sm: "k smod r = - ((- k) mod r)" using assms(1,2) by (simp add: signed_modulo_int_def)
  have "(- k) mod r \<noteq> 0" using assms(3) by (simp add: mod_minus_eq zmod_zminus1_not_zero)
  then have nz: "k smod r \<noteq> 0" using sm by simp
  have p: "(1::int) < 2 ^ 63" by simp
  have w1: "wrap64 (- ?q) = - ?q" using q0 qle qk assms(4) p by (intro wrap64_id) linarith+
  have w2: "wrap64 (1 - ?q) = 1 - ?q" using q0 qle qk assms(4) p by (intro wrap64_id) linarith+
  have e: "(1 - ?q) * r = r - ?q * r" by (simp add: algebra_simps)
  have qr0: "0 \<le> ?q * r" using q0 assms(1) by simp
  have w3: "wrap64 ((1 - ?q) * r) = (1 - ?q) * r"
    unfolding e using qr0 qk assms(1,4,5) p by (intro wrap64_id) linarith+
  have "bucketKey r k = (1 - ?q) * r"
    using nz by (simp add: bucketKey_def rem64_def quo64_def add64_def mul64_def sd w1 w2 w3)
  then show ?thesis by (simp add: ceilingMultiple_def e)
qed

lemmas arith_ev = bucketKey_def rem64_def quo64_def add64_def mul64_def wrap64_def
  signed_divide_int_def signed_modulo_int_def UnixNano_def

section \<open>Heap, map and invariant\<close>

subsection \<open>The heap\<close>

lemma length_cancel_ctx [simp]: "length (cancel_ctx c h) = length h"
  by (simp add: cancel_ctx_def)

lemma c_deadline_cancel_ctx [simp]: "c_deadline (cancel_ctx c h ! i) = c_deadline (h ! i)"
  by (simp add: cancel_ctx_def nth_list_update)

lemma Deadline_of_cancel_ctx [simp]: "Deadline_of (cancel_ctx c h) i = Deadline_of h i"
  by (simp add: Deadline_of_def)

lemma cancel_ctx_other: "i \<noteq> c \<Longrightarrow> cancel_ctx c h ! i = h ! i"
  by (simp add: cancel_ctx_def)

lemma cancelled_cancel_ctx:
  "i < length h \<Longrightarrow> cancelled (cancel_ctx c h ! i) = (cancelled (h ! i) \<or> i = c)"
  by (auto simp: cancel_ctx_def nth_list_update)

lemma length_cancel_all [simp]: "length (cancel_all es h) = length h"
  by (induction es arbitrary: h) simp_all

lemma c_deadline_cancel_all [simp]: "c_deadline (cancel_all es h ! i) = c_deadline (h ! i)"
  by (induction es arbitrary: h) simp_all

lemma Deadline_of_cancel_all [simp]: "Deadline_of (cancel_all es h) i = Deadline_of h i"
  by (induction es arbitrary: h) simp_all

lemma cancel_all_other:
  "i \<notin> (\<lambda>e. d_cancel (snd e)) ` set es \<Longrightarrow> cancel_all es h ! i = h ! i"
  by (induction es arbitrary: h) (simp_all add: cancel_ctx_other)

lemma cancelled_cancel_all:
  "i < length h \<Longrightarrow>
   cancelled (cancel_all es h ! i) = (cancelled (h ! i) \<or> i \<in> (\<lambda>e. d_cancel (snd e)) ` set es)"
  by (induction es arbitrary: h) (auto simp: cancelled_cancel_ctx)

lemma expired_cancel_ctx [simp]: "expired now r (cancel_ctx c h) e = expired now r h e"
  by (simp add: expired_def)

lemma fold_cancel_all:
  "fold (\<lambda>(k, d) h'. cancel_ctx (d_cancel d) h') es h = cancel_all es h"
  by (induction es arbitrary: h) (simp_all add: case_prod_beta)

subsection \<open>The bucket map\<close>

lemma update_fresh: "k \<notin> fst ` set ds \<Longrightarrow> AList.update k v ds = ds @ [(k, v)]"
  by (induction ds) auto

lemma lookup_None_iff: "lookup m k = None \<longleftrightarrow> k \<notin> fst ` set (entries m)"
  by (simp add: lookup_def map_of_eq_None_iff)

lemma lookup_Some_iff:
  "distinct (map fst (entries m)) \<Longrightarrow> lookup m k = Some d \<longleftrightarrow> (k, d) \<in> set (entries m)"
  by (simp add: lookup_def)

lemma cleanup_loop_eq:
  "cleanup_loop now r es m h =
     (filter (\<lambda>e. fst e \<notin> fst ` {x \<in> set es. expired now r h x}) m,
      cancel_all (filter (expired now r h) es) h)"
proof (induction es arbitrary: m h)
  case Nil
  show ?case by simp
next
  case (Cons e es)
  obtain k d where e: "e = (k, d)" by (cases e)
  show ?case
  proof (cases "expired now r h e")
    case True
    have "filter (\<lambda>x. fst x \<notin> fst ` {x \<in> set es. expired now r h x}) (AList.delete k m) =
          filter (\<lambda>x. fst x \<notin> fst ` {x \<in> set (e # es). expired now r h x}) m"
      unfolding AList.delete_eq filter_filter using True e
      by (intro filter_cong) (force simp: image_iff)+
    then show ?thesis using True e Cons.IH [of "AList.delete k m" "cancel_ctx (d_cancel d) h"]
      by (simp add: expired_def)
  next
    case False
    have "{x \<in> set (e # es). expired now r h x} = {x \<in> set es. expired now r h x}"
      using False by auto
    then show ?thesis using False e Cons.IH [of m h] by (simp add: expired_def)
  qed
qed

lemma expired_keys_distinct:
  assumes "distinct (map fst ds)" "e \<in> set ds"
  shows "fst e \<in> fst ` {x \<in> set ds. expired now r h x} \<longleftrightarrow> expired now r h e"
proof
  assume "fst e \<in> fst ` {x \<in> set ds. expired now r h x}"
  then obtain x where x: "x \<in> set ds" "expired now r h x" "fst x = fst e" by auto
  then have "x = e" using assms by (metis eq_key_imp_eq_value prod.collapse)
  then show "expired now r h e" using x by simp
next
  assume "expired now r h e"
  then show "fst e \<in> fst ` {x \<in> set ds. expired now r h x}" using assms by auto
qed

lemma cleanup_loop_distinct:
  assumes "distinct (map fst ds)"
  shows "cleanup_loop now r ds ds h =
     (filter (\<lambda>e. \<not> expired now r h e) ds, cancel_all (filter (expired now r h) ds) h)"
proof -
  have "filter (\<lambda>e. fst e \<notin> fst ` {x \<in> set ds. expired now r h x}) ds =
        filter (\<lambda>e. \<not> expired now r h e) ds"
    using assms by (intro filter_cong) (simp_all add: expired_keys_distinct)
  then show ?thesis by (simp add: cleanup_loop_eq)
qed

subsection \<open>The cleanup\<close>

lemma resolution_cong: "Resolution t' = Resolution t \<Longrightarrow> resolution t' = resolution t"
  by (simp add: resolution_def)

lemma background_cong: "Background t' = Background t \<Longrightarrow> background t' = background t"
  by (simp add: background_def)

lemma cleanup_eq:
  assumes "distinct (map fst (entries (deadlines t)))"
  shows "cleanup t h now =
     (t\<lparr>deadlines := map_option (filter (\<lambda>e. \<not> expired now (resolution t) h e)) (deadlines t)\<rparr>,
      cancel_all (filter (expired now (resolution t) h) (entries (deadlines t))) h)"
proof (cases "deadlines t")
  case None
  then show ?thesis by (simp add: cleanup_def entries_def)
next
  case (Some ds)
  then have "distinct (map fst ds)" using assms by (simp add: entries_def)
  then show ?thesis using Some by (simp add: cleanup_def entries_def cleanup_loop_distinct)
qed

lemma cleanupDue_cong:
  "cleanupTime t' = cleanupTime t \<Longrightarrow> cleanupLock t' = cleanupLock t \<Longrightarrow>
   cleanupDue t' now = cleanupDue t now"
  by (simp add: cleanupDue_def loadCleanupTime_def tryLockCleanup_def)

lemma maybeCleanup_not_due: "\<not> cleanupDue t now \<Longrightarrow> maybeCleanup t h now = (t, h)"
  by (auto simp: maybeCleanup_def cleanupDue_def tryLockCleanup_def Let_def)

lemma maybeCleanup_due:
  assumes "cleanupDue t now" "distinct (map fst (entries (deadlines t)))"
  shows "maybeCleanup t h now =
     (t\<lparr>cleanupLock := 0,
        cleanupTime := UnixNano (Add (Unix0 (cleanupTime t)) (mul64 100 (resolution t))),
        deadlines := map_option (filter (\<lambda>e. \<not> expired now (resolution t) h e)) (deadlines t)\<rparr>,
      cancel_all (filter (expired now (resolution t) h) (entries (deadlines t))) h)"
proof -
  let ?t1 = "storeCleanupTime (t\<lparr>cleanupLock := 1\<rparr>)
               (nextCleanupTime (t\<lparr>cleanupLock := 1\<rparr>) (loadCleanupTime t))"
  have d: "deadlines ?t1 = deadlines t" and r: "resolution ?t1 = resolution t"
    by (simp_all add: storeCleanupTime_def resolution_def)
  have "distinct (map fst (entries (deadlines ?t1)))" using assms d by simp
  from cleanup_eq [OF this, of h now] show ?thesis
    using assms(1) d r
    by (simp add: maybeCleanup_def cleanupDue_def tryLockCleanup_def Let_def unlockCleanup_def
        storeCleanupTime_def nextCleanupTime_def loadCleanupTime_def resolution_def split: if_splits)
qed


subsection \<open>The two paths of Context\<close>

lemma Context_hit:
  "lookup (deadlines t) (bucketKey (resolution t) (UnixNano at)) = Some d \<Longrightarrow>
   Context t h at now rnd = Inr (d_context d, t, h)"
  by (simp add: Context_def Let_def)

text \<open>
  The second look at the map, under the exclusive lock: an entry that is there is
  returned as it is, and nothing is created.
\<close>

lemma getOrCreate_existing:
  "lookup (deadlines t) k = Some d \<Longrightarrow> getOrCreate t h k r rnd = Inr (d, t, h)"
  by (simp add: getOrCreate_def)

lemma getOrCreate_miss:
  assumes "lookup (deadlines t) k = None" "0 < r"
  shows "getOrCreate t h k r rnd =
     Inr (newEntry h, created t h k, h @ [childCtx (background t) (k + int rnd mod r)])"
proof -
  have "k \<notin> fst ` set (entries (deadlines t))" using assms(1) by (simp add: lookup_None_iff)
  then show ?thesis
    using assms
    by (simp add: getOrCreate_def jitterTime_def jitter_def makeDeadline_def WithDeadline_def
        Unix0_def Add_def newEntry_def created_def update_fresh)
qed

lemma getOrCreate_panic:
  assumes "lookup (deadlines t) k = None" "r \<le> 0"
  shows "getOrCreate t h k r rnd = Inl Int63nInvalidArgument"
  using assms by (simp add: getOrCreate_def jitterTime_def jitter_def)

lemma Context_panic:
  assumes "lookup (deadlines t) (bucketKey (resolution t) (UnixNano at)) = None"
    and "resolution t \<le> 0"
  shows "Context t h at now rnd = Inl Int63nInvalidArgument"
  using assms by (simp add: Context_def Let_def getOrCreate_panic)

lemma Context_miss:
  assumes "lookup (deadlines t) (bucketKey (resolution t) (UnixNano at)) = None"
    and "0 < resolution t"
  shows "Context t h at now rnd =
     (case maybeCleanup (created t h (bucketKey (resolution t) (UnixNano at)))
             (h @ [childCtx (background t)
                     (bucketKey (resolution t) (UnixNano at) + int rnd mod resolution t)]) now of
        (t2, h2) \<Rightarrow> Inr (length h, t2, h2))"
  using assms by (simp add: Context_def Let_def getOrCreate_miss newEntry_def)

lemma created_simps [simp]:
  "Resolution (created t h k) = Resolution t"
  "Background (created t h k) = Background t"
  "cleanupTime (created t h k) = cleanupTime t"
  "cleanupLock (created t h k) = cleanupLock t"
  "resolution (created t h k) = resolution t"
  "background (created t h k) = background t"
  "entries (deadlines (created t h k)) = entries (deadlines t) @ [(k, newEntry h)]"
  "cleanupDue (created t h k) now = cleanupDue t now"
  by (simp_all add: created_def resolution_def background_def entries_def cleanupDue_def
      loadCleanupTime_def tryLockCleanup_def)

lemma Context_returns:
  assumes "0 \<le> Resolution t"
  shows "\<exists>c t' h'. Context t h at now rnd = Inr (c, t', h')"
proof (cases "lookup (deadlines t) (bucketKey (resolution t) (UnixNano at))")
  case None
  have "0 < resolution t" using assms by (simp add: resolution_def Millisecond_def)
  from Context_miss [OF None this] show ?thesis by (simp split: prod.split)
next
  case (Some d)
  then show ?thesis by (simp add: Context_hit)
qed

subsection \<open>The invariant\<close>

lemma valid_zeroTimeline: "valid (zeroTimeline r b) h"
  by (simp add: valid_def zeroTimeline_def entries_def)

lemma valid_Cancel: "valid (fst (Cancel t h)) (snd (Cancel t h))"
  by (simp add: valid_def Cancel_def entries_def)

lemma deadline_ok_childCtx:
  assumes "0 \<le> j" "j < r"
  shows "\<exists>dl. c_deadline (childCtx bg (k + j)) = Some dl \<and> deadline_ok (c_deadline bg) r k dl"
  using assms by (auto simp: childCtx_def deadline_ok_def Before_def split: option.splits)

lemma entry_ok_append:
  "entry_ok t h e \<Longrightarrow> entry_ok t (h @ hs) e"
  by (auto simp: entry_ok_def nth_append split: option.splits)

lemma entry_ok_cancel_all:
  "entry_ok t h e \<Longrightarrow> entry_ok t (cancel_all es h) e"
  by (simp add: entry_ok_def)

lemma entry_ok_cong:
  assumes "Resolution t' = Resolution t" "Background t' = Background t"
  shows "entry_ok t' = entry_ok t"
proof -
  have "resolution t' = resolution t" "background t' = background t"
    using assms by (simp_all add: resolution_def background_def)
  then show ?thesis by (intro ext) (simp add: entry_ok_def split: option.splits)
qed

lemma valid_created:
  assumes "valid t h" "lookup (deadlines t) k = None" "0 < resolution t"
  shows "valid (created t h k) (h @ [childCtx (background t) (k + int rnd mod resolution t)])"
proof -
  let ?h1 = "h @ [childCtx (background t) (k + int rnd mod resolution t)]"
  have old: "list_all (entry_ok t h) (entries (deadlines t))" using assms(1) by (simp add: valid_def)
  then have lt: "\<forall>e \<in> set (entries (deadlines t)). d_context (snd e) < length h"
    by (simp add: list_all_iff entry_ok_def)
  have 1: "distinct (map fst (entries (deadlines (created t h k))))"
    using assms(1,2) by (simp add: valid_def lookup_None_iff)
  have 2: "distinct (map (\<lambda>e. d_context (snd e)) (entries (deadlines (created t h k))))"
    using assms(1) lt by (auto simp: valid_def newEntry_def)
  have "list_all (entry_ok t ?h1) (entries (deadlines t))"
    using old by (simp add: list_all_iff entry_ok_append)
  moreover have "entry_ok t ?h1 (k, newEntry h)"
    using deadline_ok_childCtx [of "int rnd mod resolution t" "resolution t" "background t" k] assms(3)
    by (auto simp: entry_ok_def newEntry_def)
  moreover have "entry_ok (created t h k) = entry_ok t"
    by (rule entry_ok_cong) simp_all
  ultimately have 3: "list_all (entry_ok (created t h k) ?h1) (entries (deadlines (created t h k)))"
    by simp
  show ?thesis using 1 2 3 assms(3) unfolding valid_def by simp
qed

lemma valid_maybeCleanup:
  assumes "valid t h"
  shows "valid (fst (maybeCleanup t h now)) (snd (maybeCleanup t h now))"
proof (cases "cleanupDue t now")
  case False
  then show ?thesis using assms by (simp add: maybeCleanup_not_due)
next
  case True
  have d: "distinct (map fst (entries (deadlines t)))" using assms by (simp add: valid_def)
  let ?t' = "fst (maybeCleanup t h now)" and ?h' = "snd (maybeCleanup t h now)"
  have e: "entries (deadlines ?t') = filter (\<lambda>e. \<not> expired now (resolution t) h e) (entries (deadlines t))"
    by (cases "deadlines t") (simp_all add: maybeCleanup_due [OF True d] entries_def)
  have h': "?h' = cancel_all (filter (expired now (resolution t) h) (entries (deadlines t))) h"
    by (simp add: maybeCleanup_due [OF True d])
  have c: "Resolution ?t' = Resolution t" "Background ?t' = Background t"
    by (simp_all add: maybeCleanup_due [OF True d])
  have "list_all (entry_ok t h) (entries (deadlines t))" using assms by (simp add: valid_def)
  then have "list_all (entry_ok ?t' ?h') (entries (deadlines ?t'))"
    unfolding e h' by (simp add: list_all_iff entry_ok_cancel_all entry_ok_cong [OF c])
  moreover have "entries (deadlines ?t') = [] \<or> 0 < resolution ?t'"
    using assms unfolding e valid_def resolution_cong [OF c(1)] by auto
  ultimately show ?thesis using assms unfolding valid_def e
    by (simp add: distinct_map_filter)
qed

lemma valid_Context:
  assumes "valid t h" "Context t h at now rnd = Inr (c, t', h')"
  shows "valid t' h'"
proof (cases "lookup (deadlines t) (bucketKey (resolution t) (UnixNano at))")
  case (Some d)
  then show ?thesis using assms by (simp add: Context_hit)
next
  case None
  have r: "0 < resolution t"
  proof (rule ccontr)
    assume "\<not> 0 < resolution t"
    then show False using Context_panic [OF None, of h now rnd] assms(2) by simp
  qed
  let ?k = "bucketKey (resolution t) (UnixNano at)"
  let ?h1 = "h @ [childCtx (background t) (?k + int rnd mod resolution t)]"
  have "valid (created t h ?k) ?h1" using assms(1) None r by (rule valid_created)
  from valid_maybeCleanup [OF this, of now] show ?thesis
    using assms(2) by (simp add: Context_miss [OF None r] split: prod.splits)
qed

lemma valid_context_inj:
  assumes "valid t h" "e \<in> set (entries (deadlines t))" "e' \<in> set (entries (deadlines t))"
    and "d_context (snd e) = d_context (snd e')"
  shows "e = e'"
proof -
  have "inj_on (\<lambda>e. d_context (snd e)) (set (entries (deadlines t)))"
    using assms(1) by (simp add: valid_def distinct_map)
  then show ?thesis using assms(2-4) by (auto dest: inj_onD)
qed

lemma length_withChild [simp]: "length (withChild t h k rnd) = Suc (length h)"
  by (simp add: withChild_def)

lemma withChild_old [simp]: "i < length h \<Longrightarrow> withChild t h k rnd ! i = h ! i"
  by (simp add: withChild_def nth_append)

lemma withChild_new [simp]:
  "withChild t h k rnd ! length h = childCtx (background t) (k + int rnd mod resolution t)"
  by (simp add: withChild_def)

lemma entries_simps [simp]: "entries None = []" "entries (Some ds) = ds"
  by (simp_all add: entries_def)

lemma deadlines_created [simp]:
  "deadlines (created t h k) = Some (entries (deadlines t) @ [(k, newEntry h)])"
  by (simp add: created_def)

text \<open>The result of a call that misses the cache, sweep or no sweep.\<close>

lemma Context_miss_result:
  assumes "valid t h"
    and "lookup (deadlines t) (bucketKey (resolution t) (UnixNano at)) = None"
    and "0 < resolution t"
  shows "\<exists>t'. Context t h at now rnd =
           Inr (length h, t',
                if cleanupDue t now
                then cancel_all
                       (filter (expired now (resolution t)
                                  (withChild t h (bucketKey (resolution t) (UnixNano at)) rnd))
                          (entries (deadlines t) @
                             [(bucketKey (resolution t) (UnixNano at), newEntry h)]))
                       (withChild t h (bucketKey (resolution t) (UnixNano at)) rnd)
                else withChild t h (bucketKey (resolution t) (UnixNano at)) rnd) \<and>
         Resolution t' = Resolution t \<and> Background t' = Background t \<and>
         deadlines t' =
           Some (if cleanupDue t now
                 then filter (\<lambda>e. \<not> expired now (resolution t)
                                  (withChild t h (bucketKey (resolution t) (UnixNano at)) rnd) e)
                        (entries (deadlines t) @
                           [(bucketKey (resolution t) (UnixNano at), newEntry h)])
                 else entries (deadlines t) @
                        [(bucketKey (resolution t) (UnixNano at), newEntry h)]) \<and>
         cleanupTime t' =
           (if cleanupDue t now
            then UnixNano (Add (Unix0 (cleanupTime t)) (mul64 100 (resolution t)))
            else cleanupTime t) \<and>
         cleanupLock t' = (if cleanupDue t now then 0 else cleanupLock t)"
proof -
  let ?k = "bucketKey (resolution t) (UnixNano at)"
  let ?h1 = "withChild t h ?k rnd"
  let ?t1 = "created t h ?k"
  have v: "valid ?t1 ?h1"
    unfolding withChild_def using assms by (rule valid_created)
  then have d: "distinct (map fst (entries (deadlines ?t1)))" by (simp add: valid_def)
  have C: "Context t h at now rnd =
      (case maybeCleanup ?t1 ?h1 now of (t2, h2) \<Rightarrow> Inr (length h, t2, h2))"
    unfolding withChild_def using assms(2,3) by (rule Context_miss)
  show ?thesis
  proof (cases "cleanupDue t now")
    case False
    then have "maybeCleanup ?t1 ?h1 now = (?t1, ?h1)" by (simp add: maybeCleanup_not_due)
    then show ?thesis using False C by simp
  next
    case True
    then have "cleanupDue ?t1 now" by simp
    from maybeCleanup_due [OF this d, of ?h1] show ?thesis using True C
      by simp
  qed
qed

lemma Context_config:
  assumes "valid t h" "Context t h at now rnd = Inr (c, t', h')"
  shows "Resolution t' = Resolution t \<and> Background t' = Background t"
proof (cases "lookup (deadlines t) (bucketKey (resolution t) (UnixNano at))")
  case (Some d)
  then show ?thesis using assms by (simp add: Context_hit)
next
  case None
  have r: "0 < resolution t"
  proof (rule ccontr)
    assume "\<not> 0 < resolution t"
    then show False using Context_panic [OF None, of h now rnd] assms(2) by simp
  qed
  from Context_miss_result [OF assms(1) None r, of now rnd] show ?thesis
    using assms(2) by auto
qed

lemma Context_no_panic_miss:
  assumes "lookup (deadlines t) (bucketKey (resolution t) (UnixNano at)) = None"
    and "Context t h at now rnd = Inr x"
  shows "0 < resolution t"
proof (rule ccontr)
  assume "\<not> 0 < resolution t"
  then show False using Context_panic [OF assms(1), of h now rnd] assms(2) by simp
qed

lemma Context_deadline_ok:
  assumes "valid t h" and "Context t h at now rnd = Inr (c, t', h')"
  shows "\<exists>dl. c < length h' \<and> c_deadline (h' ! c) = Some dl \<and>
           deadline_ok (c_deadline (background t)) (resolution t)
             (bucketKey (resolution t) (UnixNano at)) dl"
proof (cases "lookup (deadlines t) (bucketKey (resolution t) (UnixNano at))")
  case (Some d)
  let ?k = "bucketKey (resolution t) (UnixNano at)"
  have "distinct (map fst (entries (deadlines t)))" using assms(1) by (simp add: valid_def)
  then have "(?k, d) \<in> set (entries (deadlines t))" using Some by (simp add: lookup_Some_iff)
  then have "entry_ok t h (?k, d)" using assms(1) by (simp add: valid_def list_all_iff)
  moreover have "c = d_context d" "h' = h" using Some assms(2) by (simp_all add: Context_hit)
  ultimately show ?thesis by (auto simp: entry_ok_def split: option.splits)
next
  case None
  let ?k = "bucketKey (resolution t) (UnixNano at)"
  have r: "0 < resolution t" using None assms(2) by (rule Context_no_panic_miss)
  from Context_miss_result [OF assms(1) None r, of now rnd]
  have c: "c = length h" and l: "length h' = Suc (length h)"
    and dl: "c_deadline (h' ! length h) = c_deadline (childCtx (background t) (?k + int rnd mod resolution t))"
    using assms(2) by auto
  from deadline_ok_childCtx [of "int rnd mod resolution t" "resolution t" "background t" ?k]
  show ?thesis using r c l dl by auto
qed

lemma Context_later_lookup:
  assumes "valid t h" and "Context t h at now rnd = Inr (c, t', h')"
    and "lookup (deadlines t') k' = Some d'"
  shows "lookup (deadlines t) k' = Some d' \<or>
         (lookup (deadlines t) (bucketKey (resolution t) (UnixNano at)) = None \<and>
          k' = bucketKey (resolution t) (UnixNano at) \<and> d' = newEntry h)"
proof (cases "lookup (deadlines t) (bucketKey (resolution t) (UnixNano at))")
  case (Some d)
  then show ?thesis using assms by (simp add: Context_hit)
next
  case None
  let ?k = "bucketKey (resolution t) (UnixNano at)"
  let ?es = "entries (deadlines t) @ [(?k, newEntry h)]"
  have r: "0 < resolution t" using None assms(2) by (rule Context_no_panic_miss)
  have v': "valid t' h'" using assms(1,2) by (rule valid_Context)
  from Context_miss_result [OF assms(1) None r, of now rnd]
  have "set (entries (deadlines t')) \<subseteq> set ?es"
    using assms(2) by (auto split: if_splits)
  moreover have "(k', d') \<in> set (entries (deadlines t'))"
    using v' assms(3) by (simp add: valid_def lookup_Some_iff)
  ultimately have "(k', d') \<in> set (entries (deadlines t)) \<or> (k' = ?k \<and> d' = newEntry h)"
    by auto
  then show ?thesis using assms(1) None by (auto simp: valid_def lookup_Some_iff)
qed

lemma Context_handle:
  assumes "valid t h" and "Context t h at now rnd = Inr (c, t', h')"
  shows "(case lookup (deadlines t) (bucketKey (resolution t) (UnixNano at)) of
            Some d \<Rightarrow> c = d_context d \<and> c < length h \<and> t' = t \<and> h' = h
          | None \<Rightarrow> c = length h \<and> length h' = Suc (length h))"
proof (cases "lookup (deadlines t) (bucketKey (resolution t) (UnixNano at))")
  case (Some d)
  let ?k = "bucketKey (resolution t) (UnixNano at)"
  have "distinct (map fst (entries (deadlines t)))" using assms(1) by (simp add: valid_def)
  then have "(?k, d) \<in> set (entries (deadlines t))" using Some by (simp add: lookup_Some_iff)
  then have "entry_ok t h (?k, d)" using assms(1) by (simp add: valid_def list_all_iff)
  then show ?thesis using Some assms(2) by (simp add: Context_hit entry_ok_def)
next
  case None
  have r: "0 < resolution t" using None assms(2) by (rule Context_no_panic_miss)
  from Context_miss_result [OF assms(1) None r, of now rnd] show ?thesis
    using None assms(2) by auto
qed

lemma lookup_context_bound:
  assumes "valid t h" "lookup (deadlines t) k = Some d"
  shows "d_context d < length h"
proof -
  have "(k, d) \<in> set (entries (deadlines t))"
    using assms by (simp add: valid_def lookup_Some_iff)
  then have "entry_ok t h (k, d)" using assms(1) by (simp add: valid_def list_all_iff)
  then show ?thesis by (simp add: entry_ok_def)
qed

lemma lookup_context_inj:
  assumes "valid t h" "lookup (deadlines t) k = Some d" "lookup (deadlines t) k' = Some d'"
    and "d_context d = d_context d'"
  shows "k = k'"
proof -
  have "(k, d) \<in> set (entries (deadlines t))" "(k', d') \<in> set (entries (deadlines t))"
    using assms(1-3) by (simp_all add: valid_def lookup_Some_iff)
  from valid_context_inj [OF assms(1) this] assms(4) show ?thesis by simp
qed

lemma Context_entry_survives:
  assumes "valid t h" and "Context t h at now rnd = Inr (c, t', h')"
    and "\<not> After now (Add (Deadline_of h' c) (resolution t))"
  shows "\<exists>d. lookup (deadlines t') (bucketKey (resolution t) (UnixNano at)) = Some d \<and>
             d_context d = c"
proof (cases "lookup (deadlines t) (bucketKey (resolution t) (UnixNano at))")
  case (Some d)
  then show ?thesis using assms(2) by (simp add: Context_hit)
next
  case None
  let ?k = "bucketKey (resolution t) (UnixNano at)"
  let ?h1 = "withChild t h ?k rnd"
  have r: "0 < resolution t" using None assms(2) by (rule Context_no_panic_miss)
  have v': "valid t' h'" using assms(1,2) by (rule valid_Context)
  from Context_miss_result [OF assms(1) None r, of now rnd]
  have c: "c = length h"
    and h': "h' = (if cleanupDue t now
                   then cancel_all (filter (expired now (resolution t) ?h1)
                          (entries (deadlines t) @ [(?k, newEntry h)])) ?h1
                   else ?h1)"
    and d': "entries (deadlines t') =
               (if cleanupDue t now
                then filter (\<lambda>e. \<not> expired now (resolution t) ?h1 e)
                       (entries (deadlines t) @ [(?k, newEntry h)])
                else entries (deadlines t) @ [(?k, newEntry h)])"
    using assms(2) by auto
  have "Deadline_of h' c = Deadline_of ?h1 (length h)" unfolding h' c by simp
  then have "\<not> expired now (resolution t) ?h1 (?k, newEntry h)"
    using assms(3) by (simp add: expired_def newEntry_def)
  then have "(?k, newEntry h) \<in> set (entries (deadlines t'))" unfolding d' by simp
  then have "lookup (deadlines t') ?k = Some (newEntry h)"
    using v' by (simp add: valid_def lookup_Some_iff)
  then show ?thesis using c by (simp add: newEntry_def)
qed

lemma Cancel_eq: "Cancel t h = (t\<lparr>deadlines := None\<rparr>, cancel_all (entries (deadlines t)) h)"
  by (simp add: Cancel_def fold_cancel_all)

lemma Context_fresh_cancelled:
  assumes "valid t h" and "entries (deadlines t) = []"
    and "Context t h at now rnd = Inr (c, t', h')"
  shows "c = length h \<and> deadlines t' \<noteq> None \<and>
         cancelled (h' ! c) =
           (cancelled (background t) \<or>
            (cleanupDue t now \<and> After now (Add (Deadline_of h' c) (resolution t))))"
proof -
  let ?k = "bucketKey (resolution t) (UnixNano at)"
  let ?h1 = "withChild t h ?k rnd"
  have None: "lookup (deadlines t) ?k = None" using assms(2) by (simp add: lookup_def)
  have r: "0 < resolution t" using None assms(3) by (rule Context_no_panic_miss)
  from Context_miss_result [OF assms(1) None r, of now rnd]
  have c: "c = length h" and d: "deadlines t' \<noteq> None"
    and h': "h' = (if cleanupDue t now
                   then cancel_all (filter (expired now (resolution t) ?h1) [(?k, newEntry h)]) ?h1
                   else ?h1)"
    using assms(2,3) by auto
  have D: "Deadline_of h' c = Deadline_of ?h1 (length h)" unfolding h' c by simp
  have n: "cancelled (?h1 ! length h) = cancelled (background t)" by (simp add: childCtx_def)
  have "cancelled (h' ! length h) =
          (cancelled (background t) \<or>
           (cleanupDue t now \<and> expired now (resolution t) ?h1 (?k, newEntry h)))"
    unfolding h' using n by (simp add: cancelled_cancel_all newEntry_def)
  then show ?thesis using c d D by (simp add: expired_def newEntry_def)
qed

subsection \<open>Runs\<close>

lemma step_Context:
  "step t h (DoContext at now rnd) = Inr (t', h') \<longleftrightarrow>
   (\<exists>c. Context t h at now rnd = Inr (c, t', h'))"
  by (auto split: sum.splits)

lemma valid_step:
  assumes "valid t h" "step t h x = Inr (t', h')"
  shows "valid t' h' \<and> Resolution t' = Resolution t \<and> Background t' = Background t"
proof (cases x)
  case (DoContext at now rnd)
  from assms(2) [unfolded DoContext step_Context]
  obtain c where "Context t h at now rnd = Inr (c, t', h')" by blast
  then show ?thesis using assms(1) valid_Context Context_config by blast
next
  case DoCancel
  then have "t' = fst (Cancel t h)" "h' = snd (Cancel t h)" using assms(2) by simp_all
  then show ?thesis using valid_Cancel [of t h] by (simp add: Cancel_def)
qed

lemma valid_run:
  assumes "valid t h" "run t h xs = Inr (t', h')"
  shows "valid t' h' \<and> Resolution t' = Resolution t \<and> Background t' = Background t"
  using assms
proof (induction xs arbitrary: t h)
  case Nil
  then show ?case by simp
next
  case (Cons x xs)
  from Cons.prems(2) obtain ta ha where s: "step t h x = Inr (ta, ha)"
    and r: "run ta ha xs = Inr (t', h')"
    by (auto split: sum.splits)
  from valid_step [OF Cons.prems(1) s] Cons.IH [OF _ r] show ?case by simp
qed

text \<open>Every state that a run of operations reaches from a timeline literal is valid.\<close>

lemma valid_reachable:
  assumes "run (zeroTimeline r b) h xs = Inr (t', h')"
  shows "valid t' h'"
  using valid_run [OF valid_zeroTimeline assms] by simp

lemma owned_after_Context:
  assumes "valid t h" "Context t h at now rnd = Inr (c, t', h')"
  shows "owned c (bucketKey (resolution t) (UnixNano at)) t' h'"
proof -
  let ?k = "bucketKey (resolution t) (UnixNano at)"
  note H = Context_handle [OF assms]
  show ?thesis
  proof (cases "lookup (deadlines t) ?k")
    case (Some d1)
    then have c: "c = d_context d1" "c < length h" "t' = t" "h' = h" using H by simp_all
    have "k = ?k" if "lookup (deadlines t) k = Some d" "d_context d = c" for k d
      using lookup_context_inj [OF assms(1) that(1) Some] that(2) c(1) by simp
    then show ?thesis using c by (auto simp: owned_def)
  next
    case None
    then have c: "c = length h" "length h' = Suc (length h)" using H by simp_all
    have "k = ?k" if "lookup (deadlines t') k = Some d" "d_context d = c" for k d
    proof -
      from Context_later_lookup [OF assms that(1)]
      show ?thesis
      proof
        assume "lookup (deadlines t) k = Some d"
        then have "d_context d < length h" using assms(1) by (rule lookup_context_bound [rotated])
        then show ?thesis using that(2) c(1) by simp
      qed simp
    qed
    then show ?thesis using c by (auto simp: owned_def)
  qed
qed

lemma owned_step:
  assumes "valid t h" "owned c k1 t h" "step t h x = Inr (t', h')"
  shows "owned c k1 t' h'"
proof (cases x)
  case (DoContext at now rnd)
  from assms(3) [unfolded DoContext step_Context]
  obtain c' where C: "Context t h at now rnd = Inr (c', t', h')" by blast
  note H = Context_handle [OF assms(1) C]
  have len: "length h \<le> length h'" using H by (auto split: option.splits)
  have "k = k1" if "lookup (deadlines t') k = Some d" "d_context d = c" for k d
  proof -
    from Context_later_lookup [OF assms(1) C that(1)]
    show ?thesis
    proof
      assume "lookup (deadlines t) k = Some d"
      then show ?thesis using assms(2) that(2) by (auto simp: owned_def)
    next
      assume "lookup (deadlines t) (bucketKey (resolution t) (UnixNano at)) = None \<and>
        k = bucketKey (resolution t) (UnixNano at) \<and> d = newEntry h"
      then have "d_context d = length h" by (simp add: newEntry_def)
      then show ?thesis using assms(2) that(2) by (simp add: owned_def)
    qed
  qed
  then show ?thesis using assms(2) len by (auto simp: owned_def)
next
  case DoCancel
  then have "t' = t\<lparr>deadlines := None\<rparr>" "length h' = length h"
    using assms(3) by (auto simp: Cancel_eq)
  then show ?thesis using assms(2) by (simp add: owned_def lookup_def)
qed

lemma owned_run:
  assumes "valid t h" "owned c k1 t h" "run t h xs = Inr (t', h')"
  shows "owned c k1 t' h'"
  using assms
proof (induction xs arbitrary: t h)
  case Nil
  then show ?case by simp
next
  case (Cons x xs)
  from Cons.prems(3) obtain ta ha where s: "step t h x = Inr (ta, ha)"
    and r: "run ta ha xs = Inr (t', h')"
    by (auto split: sum.splits)
  have "valid ta ha" using valid_step [OF Cons.prems(1) s] by simp
  moreover have "owned c k1 ta ha" using Cons.prems(1,2) s by (rule owned_step)
  ultimately show ?case using r by (rule Cons.IH)
qed

text \<open>While the entry at a key is kept, it is the same entry.\<close>

lemma kept_step:
  assumes "valid t h" "lookup (deadlines t) k = Some d" "step t h x = Inr (t', h')"
    and "lookup (deadlines t') k \<noteq> None"
  shows "lookup (deadlines t') k = Some d"
proof (cases x)
  case (DoContext at now rnd)
  from assms(3) [unfolded DoContext step_Context]
  obtain c where C: "Context t h at now rnd = Inr (c, t', h')" by blast
  from assms(4) obtain d' where d': "lookup (deadlines t') k = Some d'" by auto
  from Context_later_lookup [OF assms(1) C d'] assms(2) show ?thesis using d' by auto
next
  case DoCancel
  then have "t' = t\<lparr>deadlines := None\<rparr>" using assms(3) by (auto simp: Cancel_eq)
  then show ?thesis using assms(4) by (simp add: lookup_def)
qed

lemma kept_run:
  assumes "valid t h" "lookup (deadlines t) k = Some d" "run t h xs = Inr (t', h')"
    and "kept k t h xs"
  shows "lookup (deadlines t') k = Some d"
  using assms
proof (induction xs arbitrary: t h)
  case Nil
  then show ?case by simp
next
  case (Cons x xs)
  from Cons.prems(3) obtain ta ha where s: "step t h x = Inr (ta, ha)"
    and r: "run ta ha xs = Inr (t', h')"
    by (auto split: sum.splits)
  have k': "kept k ta ha xs" using Cons.prems(4) s by simp
  then have "lookup (deadlines ta) k \<noteq> None" by (cases xs) simp_all
  then have l: "lookup (deadlines ta) k = Some d"
    using kept_step [OF Cons.prems(1,2) s] by simp
  have "valid ta ha" using valid_step [OF Cons.prems(1) s] by simp
  then show ?case using l r k' by (rule Cons.IH)
qed

text \<open>An entry stays while no call comes with \<open>now\<close> after its grace window.\<close>

lemma calm_step:
  assumes "valid t h" "lookup (deadlines t) k = Some d"
    and "\<not> After now (Add (Deadline_of h (d_context d)) (resolution t))"
    and "Context t h at now rnd = Inr (c, t', h')"
  shows "lookup (deadlines t') k = Some d \<and> Deadline_of h' (d_context d) = Deadline_of h (d_context d)"
proof (cases "lookup (deadlines t) (bucketKey (resolution t) (UnixNano at))")
  case (Some d0)
  then show ?thesis using assms(2,4) by (simp add: Context_hit)
next
  case None
  let ?k = "bucketKey (resolution t) (UnixNano at)"
  let ?h1 = "withChild t h ?k rnd"
  let ?es = "entries (deadlines t) @ [(?k, newEntry h)]"
  have r: "0 < resolution t" using None assms(4) by (rule Context_no_panic_miss)
  have v': "valid t' h'" using assms(1,4) by (rule valid_Context)
  have lt: "d_context d < length h" using assms(1,2) by (rule lookup_context_bound)
  have mem: "(k, d) \<in> set (entries (deadlines t))"
    using assms(1,2) by (simp add: valid_def lookup_Some_iff)
  from Context_miss_result [OF assms(1) None r, of now rnd]
  have h': "h' = (if cleanupDue t now
                   then cancel_all (filter (expired now (resolution t) ?h1) ?es) ?h1
                   else ?h1)"
    and d': "entries (deadlines t') =
               (if cleanupDue t now
                then filter (\<lambda>e. \<not> expired now (resolution t) ?h1 e) ?es
                else ?es)"
    using assms(4) by auto
  have D1: "Deadline_of ?h1 (d_context d) = Deadline_of h (d_context d)"
    using lt by (simp add: Deadline_of_def)
  then have D: "Deadline_of h' (d_context d) = Deadline_of h (d_context d)"
    unfolding h' by simp
  have "\<not> expired now (resolution t) ?h1 (k, d)"
    using assms(3) D1 by (simp add: expired_def)
  then have "(k, d) \<in> set (entries (deadlines t'))" unfolding d' using mem by simp
  then have "lookup (deadlines t') k = Some d"
    using v' by (simp add: valid_def lookup_Some_iff)
  then show ?thesis using D by simp
qed

lemma calm_kept:
  assumes "valid t h" "lookup (deadlines t) k = Some d"
    and "calm (Add (Deadline_of h (d_context d)) (resolution t)) xs"
    and "run t h xs = Inr (t', h')"
  shows "kept k t h xs"
  using assms
proof (induction xs arbitrary: t h)
  case Nil
  then show ?case by simp
next
  case (Cons x xs)
  from Cons.prems(4) obtain ta ha where s: "step t h x = Inr (ta, ha)"
    and r: "run ta ha xs = Inr (t', h')"
    by (auto split: sum.splits)
  from Cons.prems(3) obtain at now rnd where x: "x = DoContext at now rnd"
    and g: "\<not> After now (Add (Deadline_of h (d_context d)) (resolution t))"
    and c: "calm (Add (Deadline_of h (d_context d)) (resolution t)) xs"
    by (cases x) simp_all
  from s [unfolded x step_Context]
  obtain c' where C: "Context t h at now rnd = Inr (c', ta, ha)" by blast
  have va: "valid ta ha" using valid_step [OF Cons.prems(1) s] by simp
  have "Resolution ta = Resolution t" using valid_step [OF Cons.prems(1) s] by simp
  then have ra: "resolution ta = resolution t" by (rule resolution_cong)
  from calm_step [OF Cons.prems(1,2) g C]
  have l: "lookup (deadlines ta) k = Some d"
    and D: "Deadline_of ha (d_context d) = Deadline_of h (d_context d)" by simp_all
  have "calm (Add (Deadline_of ha (d_context d)) (resolution ta)) xs" using c D ra by simp
  from Cons.IH [OF va l this r] show ?case using Cons.prems(2) s by simp
qed


lemma kept_lookup: "kept k t h xs \<Longrightarrow> lookup (deadlines t) k \<noteq> None"
  by (cases xs) simp_all

lemma Context_entry_is_result:
  assumes "valid t h" and "Context t h at now rnd = Inr (c, t', h')"
    and "lookup (deadlines t') (bucketKey (resolution t) (UnixNano at)) = Some d"
  shows "d_context d = c"
proof (cases "lookup (deadlines t) (bucketKey (resolution t) (UnixNano at))")
  case (Some d0)
  then show ?thesis using Context_handle [OF assms(1,2)] assms(3) by simp
next
  case None
  from Context_later_lookup [OF assms] None have "d = newEntry h" by simp
  then show ?thesis using Context_handle [OF assms(1,2)] None by (simp add: newEntry_def)
qed

text \<open>
  Two calls of \<open>Context\<close> with a run of operations between them, in terms of the keys
  that the code computes.
\<close>

lemma same_key_same_context:
  assumes "valid t h"
    and "Context t h at1 now1 rnd1 = Inr (c1, t1, h1)"
    and "run t1 h1 xs = Inr (t2, h2)"
    and "Context t2 h2 at2 now2 rnd2 = Inr (c2, t3, h3)"
  shows "(bucketKey (resolution t) (UnixNano at1) = bucketKey (resolution t) (UnixNano at2) \<and>
          (kept (bucketKey (resolution t) (UnixNano at1)) t1 h1 xs \<or>
           \<not> After now1 (Add (Deadline_of h1 c1) (resolution t)) \<and>
           calm (Add (Deadline_of h1 c1) (resolution t)) xs) \<longrightarrow>
            c2 = c1 \<and> t3 = t2 \<and> h3 = h2) \<and>
         (bucketKey (resolution t) (UnixNano at1) \<noteq> bucketKey (resolution t) (UnixNano at2) \<longrightarrow>
            c2 \<noteq> c1)"
proof -
  let ?k1 = "bucketKey (resolution t) (UnixNano at1)"
  let ?k2 = "bucketKey (resolution t) (UnixNano at2)"
  let ?L = "Add (Deadline_of h1 c1) (resolution t)"
  have v1: "valid t1 h1" using assms(1,2) by (rule valid_Context)
  have "Resolution t1 = Resolution t" using Context_config [OF assms(1,2)] by simp
  then have r1: "resolution t1 = resolution t" by (rule resolution_cong)
  have v2: "valid t2 h2" using valid_run [OF v1 assms(3)] by simp
  have "Resolution t2 = Resolution t1" using valid_run [OF v1 assms(3)] by simp
  then have "resolution t2 = resolution t1" by (rule resolution_cong)
  then have r2: "resolution t2 = resolution t" using r1 by simp
  have H2: "(case lookup (deadlines t2) ?k2 of
               Some d \<Rightarrow> c2 = d_context d \<and> c2 < length h2 \<and> t3 = t2 \<and> h3 = h2
             | None \<Rightarrow> c2 = length h2 \<and> length h3 = Suc (length h2))"
    using Context_handle [OF v2 assms(4)] unfolding r2 .
  have same: "c2 = c1 \<and> t3 = t2 \<and> h3 = h2"
    if eq: "?k1 = ?k2" and k: "kept ?k1 t1 h1 xs"
  proof -
    from kept_lookup [OF k] obtain d where d: "lookup (deadlines t1) ?k1 = Some d" by auto
    have c: "d_context d = c1" using assms(1,2) d by (rule Context_entry_is_result)
    have "lookup (deadlines t2) ?k1 = Some d" using v1 d assms(3) k by (rule kept_run)
    then show ?thesis using H2 eq c by simp
  qed
  have kept: "kept ?k1 t1 h1 xs" if "\<not> After now1 ?L" "calm ?L xs"
  proof -
    from Context_entry_survives [OF assms(1,2) that(1)]
    obtain d where d: "lookup (deadlines t1) ?k1 = Some d" and c: "d_context d = c1" by blast
    have "calm (Add (Deadline_of h1 (d_context d)) (resolution t1)) xs"
      using that(2) c r1 by simp
    from calm_kept [OF v1 d this assms(3)] show ?thesis .
  qed
  have A: "c2 = c1 \<and> t3 = t2 \<and> h3 = h2"
    if "?k1 = ?k2" "kept ?k1 t1 h1 xs \<or> \<not> After now1 ?L \<and> calm ?L xs"
  proof -
    from that(2) have "kept ?k1 t1 h1 xs"
    proof
      assume "kept ?k1 t1 h1 xs"
      then show ?thesis .
    next
      assume "\<not> After now1 ?L \<and> calm ?L xs"
      then show ?thesis using kept by (elim conjE)
    qed
    with that(1) show ?thesis by (rule same)
  qed
  have B: "c2 \<noteq> c1" if ne: "?k1 \<noteq> ?k2"
  proof -
    have "owned c1 ?k1 t1 h1" using assms(1,2) by (rule owned_after_Context)
    with v1 have o: "owned c1 ?k1 t2 h2" using assms(3) by (rule owned_run)
    have lt: "c1 < length h2" using o by (simp add: owned_def)
    have uniq: "k = ?k1" if "lookup (deadlines t2) k = Some d" "d_context d = c1" for k d
      using o that unfolding owned_def by blast
    show ?thesis
    proof (cases "lookup (deadlines t2) ?k2")
      case None
      then have "c2 = length h2" using H2 by simp
      then show ?thesis using lt by simp
    next
      case (Some d)
      then have c2: "c2 = d_context d" using H2 by simp
      show ?thesis
      proof
        assume "c2 = c1"
        then have "d_context d = c1" using c2 by simp
        with Some have "?k2 = ?k1" by (rule uniq)
        then show False using ne by simp
      qed
    qed
  qed
  show ?thesis
  proof (rule conjI; rule impI)
    assume h: "?k1 = ?k2 \<and> (kept ?k1 t1 h1 xs \<or> \<not> After now1 ?L \<and> calm ?L xs)"
    from A [OF conjunct1 [OF h] conjunct2 [OF h]] show "c2 = c1 \<and> t3 = t2 \<and> h3 = h2" .
  next
    assume "?k1 \<noteq> ?k2"
    then show "c2 \<noteq> c1" by (rule B)
  qed
qed

subsection \<open>Windows\<close>

lemma Context_resolution_pos:
  assumes "valid t h" and "Context t h at now rnd = Inr (c, t', h')"
  shows "0 < resolution t"
proof (cases "lookup (deadlines t) (bucketKey (resolution t) (UnixNano at))")
  case None
  then show ?thesis using assms(2) by (rule Context_no_panic_miss)
next
  case (Some d)
  then have "entries (deadlines t) \<noteq> []" by (auto simp: lookup_def)
  then show ?thesis using assms(1) by (simp add: valid_def)
qed

lemma bucketKey_window:
  assumes "0 < r" "0 \<le> at" "at + r < 2 ^ 63"
  shows "bucketKey r (UnixNano at) = ceilingMultiple r at"
proof -
  have "wrap64 at = at" using assms by (intro wrap64_id) linarith+
  then show ?thesis using assms by (simp add: UnixNano_def bucketKey_nonneg_ceiling)
qed

subsection \<open>Callers racing for one bucket\<close>

lemma maybeCleanup_facts:
  assumes "valid t h" and "maybeCleanup t h now = (t', h')"
  shows "valid t' h'" and "length h' = length h"
    and "Resolution t' = Resolution t" and "Background t' = Background t"
proof -
  have d: "distinct (map fst (entries (deadlines t)))" using assms(1) by (simp add: valid_def)
  show "valid t' h'" using valid_maybeCleanup [OF assms(1), of now] assms(2) by simp
  show "length h' = length h"
  proof (cases "cleanupDue t now")
    case True
    from maybeCleanup_due [OF True d, of h] show ?thesis using assms(2) by auto
  next
    case False
    then show ?thesis using assms(2) by (simp add: maybeCleanup_not_due)
  qed
  show "Resolution t' = Resolution t" "Background t' = Background t"
  proof -
    have "Resolution t' = Resolution t \<and> Background t' = Background t"
    proof (cases "cleanupDue t now")
      case True
      from maybeCleanup_due [OF True d, of h] show ?thesis using assms(2) by auto
    next
      case False
      then show ?thesis using assms(2) by (simp add: maybeCleanup_not_due)
    qed
    then show "Resolution t' = Resolution t" "Background t' = Background t" by simp_all
  qed
qed

lemma race_existing:
  assumes "valid t h" and "lookup (deadlines t) k = Some d"
    and "undisturbed k t h es" and "race t h k es = Inr (cs, t', h')"
  shows "valid t' h' \<and> length h' = length h \<and> lookup (deadlines t') k = Some d \<and>
         length cs = lockedCount es \<and> (\<forall>c \<in> set cs. c = d_context d)"
  using assms
proof (induction es arbitrary: t h cs)
  case Nil
  then show ?case by simp
next
  case (Cons e es)
  show ?case
  proof (cases e)
    case (Locked rnd)
    have g: "getOrCreate t h k (resolution t) rnd = Inr (d, t, h)"
      using Cons.prems(2) by (rule getOrCreate_existing)
    from Cons.prems(4) obtain cs' where r: "race t h k es = Inr (cs', t', h')"
      and cs: "cs = d_context d # cs'"
      unfolding Locked by (auto simp: g split: sum.splits)
    have u: "undisturbed k t h es" using Cons.prems(3) unfolding Locked by (simp add: g)
    from Cons.IH [OF Cons.prems(1,2) u r] show ?thesis by (simp add: cs Locked)
  next
    case (Swept now)
    obtain ta ha where m: "maybeCleanup t h now = (ta, ha)" by (cases "maybeCleanup t h now")
    have r: "race ta ha k es = Inr (cs, t', h')" using Cons.prems(4) unfolding Swept by (simp add: m)
    have u: "undisturbed k ta ha es" and l: "lookup (deadlines ta) k = Some d"
      using Cons.prems(2,3) unfolding Swept by (simp_all add: m)
    note f = maybeCleanup_facts [OF Cons.prems(1) m]
    from Cons.IH [OF f(1) l u r] show ?thesis using f(2) by (simp add: Swept)
  qed
qed

lemma race_missing:
  assumes "valid t h" and "lookup (deadlines t) k = None"
    and "undisturbed k t h es" and "race t h k es = Inr (cs, t', h')"
  shows "length h' = (if lockedCount es = 0 then length h else Suc (length h)) \<and>
         (0 < lockedCount es \<longrightarrow> lookup (deadlines t') k = Some (newEntry h)) \<and>
         length cs = lockedCount es \<and> (\<forall>c \<in> set cs. c = length h)"
  using assms
proof (induction es arbitrary: t h cs)
  case Nil
  then show ?case by simp
next
  case (Cons e es)
  show ?case
  proof (cases e)
    case (Locked rnd)
    have pos: "0 < resolution t"
    proof (rule ccontr)
      assume "\<not> 0 < resolution t"
      then have "getOrCreate t h k (resolution t) rnd = Inl Int63nInvalidArgument"
        using Cons.prems(2) by (intro getOrCreate_panic) simp_all
      then show False using Cons.prems(4) unfolding Locked by simp
    qed
    let ?t1 = "created t h k"
    let ?h1 = "h @ [childCtx (background t) (k + int rnd mod resolution t)]"
    have g: "getOrCreate t h k (resolution t) rnd = Inr (newEntry h, ?t1, ?h1)"
      using Cons.prems(2) pos by (rule getOrCreate_miss)
    from Cons.prems(4) obtain cs' where r: "race ?t1 ?h1 k es = Inr (cs', t', h')"
      and cs: "cs = d_context (newEntry h) # cs'"
      unfolding Locked by (auto simp: g split: sum.splits)
    have u: "undisturbed k ?t1 ?h1 es" using Cons.prems(3) unfolding Locked by (simp add: g)
    have v: "valid ?t1 ?h1" using Cons.prems(1,2) pos by (rule valid_created)
    have "distinct (map fst (entries (deadlines ?t1)))" using v by (simp only: valid_def)
    then have l: "lookup (deadlines ?t1) k = Some (newEntry h)"
      by (simp add: lookup_Some_iff)
    from race_existing [OF v l u r] show ?thesis by (simp add: cs Locked newEntry_def)
  next
    case (Swept now)
    obtain ta ha where m: "maybeCleanup t h now = (ta, ha)" by (cases "maybeCleanup t h now")
    have r: "race ta ha k es = Inr (cs, t', h')" using Cons.prems(4) unfolding Swept by (simp add: m)
    have u: "undisturbed k ta ha es" and l: "lookup (deadlines ta) k = None"
      using Cons.prems(2,3) unfolding Swept by (simp_all add: m)
    note f = maybeCleanup_facts [OF Cons.prems(1) m]
    from Cons.IH [OF f(1) l u r] show ?thesis using f(2) by (simp add: Swept newEntry_def)
  qed
qed

lemma valid_getOrCreate:
  assumes "valid t h" and "getOrCreate t h k (resolution t) rnd = Inr (d, t', h')"
  shows "valid t' h'"
proof (cases "lookup (deadlines t) k")
  case (Some d0)
  then show ?thesis using assms by (simp add: getOrCreate_existing)
next
  case None
  have pos: "0 < resolution t"
  proof (rule ccontr)
    assume "\<not> 0 < resolution t"
    then have "getOrCreate t h k (resolution t) rnd = Inl Int63nInvalidArgument"
      using None by (intro getOrCreate_panic) simp_all
    then show False using assms(2) by simp
  qed
  from getOrCreate_miss [OF None pos, of h rnd] valid_created [OF assms(1) None pos, of rnd]
  show ?thesis using assms(2) by simp
qed

lemma valid_race:
  assumes "valid t h" and "race t h k es = Inr (cs, t', h')"
  shows "valid t' h'"
  using assms
proof (induction es arbitrary: t h cs)
  case Nil
  then show ?case by simp
next
  case (Cons e es)
  show ?case
  proof (cases e)
    case (Locked rnd)
    from Cons.prems(2) obtain d ta ha cs' where g: "getOrCreate t h k (resolution t) rnd = Inr (d, ta, ha)"
      and r: "race ta ha k es = Inr (cs', t', h')"
      unfolding Locked by (auto split: sum.splits)
    have "valid ta ha" using Cons.prems(1) g by (rule valid_getOrCreate)
    then show ?thesis using r by (rule Cons.IH)
  next
    case (Swept now)
    obtain ta ha where m: "maybeCleanup t h now = (ta, ha)" by (cases "maybeCleanup t h now")
    have r: "race ta ha k es = Inr (cs, t', h')" using Cons.prems(2) unfolding Swept by (simp add: m)
    from maybeCleanup_facts(1) [OF Cons.prems(1) m] show ?thesis using r by (rule Cons.IH)
  qed
qed

text \<open>With no sweep among the events there is nothing to disturb the entry.\<close>

lemma undisturbed_locked_only:
  "lockedCount es = length es \<Longrightarrow> undisturbed k t h es"
proof (induction es arbitrary: t h)
  case Nil
  show ?case by simp
next
  case (Cons e es)
  have le: "lockedCount es \<le> length es" for es by (induction es rule: lockedCount.induct) simp_all
  show ?case
  proof (cases e)
    case (Locked rnd)
    then have "lockedCount es = length es" using Cons.prems by simp
    then show ?thesis using Cons.IH Locked by (simp split: sum.splits)
  next
    case (Swept now)
    then have "lockedCount es = Suc (length es)" using Cons.prems by simp
    then show ?thesis using le [of es] by simp
  qed
qed

text \<open>
  Locked sections alone, in any order: from a miss they create one context, and every
  caller receives it.
\<close>

lemma locked_sections_share_one_context:
  assumes "valid t h" and "lookup (deadlines t) k = None"
    and "lockedCount es = length es" and "race t h k es = Inr (cs, t', h')"
  shows "length cs = length es \<and> (\<forall>c \<in> set cs. c = length h) \<and>
         length h' = (if es = [] then length h else Suc (length h)) \<and>
         (es \<noteq> [] \<longrightarrow> lookup (deadlines t') k = Some (newEntry h))"
  using race_missing [OF assms(1,2) undisturbed_locked_only [OF assms(3)] assms(4)] assms(3)
  by auto

text \<open>
  A sweep leaves an entry alone unless its \<open>now\<close> is after the deadline of the entry's
  context plus one resolution, and it never adds an entry.
\<close>

lemma maybeCleanup_keeps:
  assumes "valid t h" and "lookup (deadlines t) k = Some d"
    and "\<not> After now (Add (Deadline_of h (d_context d)) (resolution t))"
    and "maybeCleanup t h now = (t', h')"
  shows "lookup (deadlines t') k = Some d"
proof (cases "cleanupDue t now")
  case False
  then show ?thesis using assms(2,4) by (simp add: maybeCleanup_not_due)
next
  case True
  have dist: "distinct (map fst (entries (deadlines t)))" using assms(1) by (simp add: valid_def)
  have v': "valid t' h'" using maybeCleanup_facts(1) [OF assms(1,4)] .
  have mem: "(k, d) \<in> set (entries (deadlines t))"
    using dist assms(2) by (simp add: lookup_Some_iff)
  have ne: "\<not> expired now (resolution t) h (k, d)" using assms(3) by (simp add: expired_def)
  from maybeCleanup_due [OF True dist, of h]
  have "entries (deadlines t') =
      filter (\<lambda>e. \<not> expired now (resolution t) h e) (entries (deadlines t))"
    using assms(4) by (cases "deadlines t") auto
  then have "(k, d) \<in> set (entries (deadlines t'))" using mem ne by simp
  then show ?thesis using v' by (simp add: valid_def lookup_Some_iff)
qed

lemma maybeCleanup_none:
  assumes "valid t h" and "lookup (deadlines t) k = None"
    and "maybeCleanup t h now = (t', h')"
  shows "lookup (deadlines t') k = None"
proof (cases "cleanupDue t now")
  case False
  then show ?thesis using assms(2,3) by (simp add: maybeCleanup_not_due)
next
  case True
  have dist: "distinct (map fst (entries (deadlines t)))" using assms(1) by (simp add: valid_def)
  from maybeCleanup_due [OF True dist, of h]
  have "entries (deadlines t') =
      filter (\<lambda>e. \<not> expired now (resolution t) h e) (entries (deadlines t))"
    using assms(3) by (cases "deadlines t") auto
  then have "set (entries (deadlines t')) \<subseteq> set (entries (deadlines t))" by auto
  then show ?thesis using assms(2) by (auto simp: lookup_None_iff)
qed

lemmas model_ev =
  Context_def getOrCreate_def maybeCleanup_def cleanup_def Cancel_def
  zeroTimeline_def resolution_def background_def backgroundCtx_def lookup_def entries_def
  jitterTime_def jitter_def makeDeadline_def WithDeadline_def childCtx_def cancel_ctx_def
  Deadline_of_def loadCleanupTime_def storeCleanupTime_def nextCleanupTime_def
  tryLockCleanup_def unlockCleanup_def
  Unix0_def Add_def After_def Before_def IsZero_def zeroTime_def Millisecond_def Second_def
  bucketKey_def rem64_def quo64_def add64_def mul64_def wrap64_def UnixNano_def
  signed_divide_int_def signed_modulo_int_def

lemmas valid_ev = valid_def entry_ok_def deadline_ok_def

section \<open>C1: one context per resolution window\<close>

text \<open>
  Claim C1, as amended. From a state the operations produce, take a call of \<open>Context\<close>,
  then any run of further \<open>Context\<close> and \<open>Cancel\<close> calls, then a second call of
  \<open>Context\<close>, both for instants from the epoch on and short of the overflow of \<open>int64\<close>.
  If the two instants lie in the same resolution window (they have the same ceiling to a
  multiple of the resolution) and the map has kept its entry for that window from the
  return of the first call on, the second call returns the same context handle and
  changes nothing; the entry is kept when the calls up to the second include no
  \<open>Cancel\<close> and none whose \<open>now\<close> is after the deadline of the first call's context
  plus one resolution. If the two instants lie in different windows, the handles differ.
\<close>

theorem same_window_same_context:
  assumes "valid t h"
    and "Context t h at1 now1 rnd1 = Inr (c1, t1, h1)"
    and "run t1 h1 xs = Inr (t2, h2)"
    and "Context t2 h2 at2 now2 rnd2 = Inr (c2, t3, h3)"
    and "0 \<le> at1" and "at1 + resolution t < 2 ^ 63"
    and "0 \<le> at2" and "at2 + resolution t < 2 ^ 63"
  shows "(ceilingMultiple (resolution t) at1 = ceilingMultiple (resolution t) at2 \<and>
          (kept (ceilingMultiple (resolution t) at1) t1 h1 xs \<or>
           \<not> After now1 (Add (Deadline_of h1 c1) (resolution t)) \<and>
           calm (Add (Deadline_of h1 c1) (resolution t)) xs) \<longrightarrow>
            c2 = c1 \<and> t3 = t2 \<and> h3 = h2) \<and>
         (ceilingMultiple (resolution t) at1 \<noteq> ceilingMultiple (resolution t) at2 \<longrightarrow>
            c2 \<noteq> c1)"
proof -
  have r: "0 < resolution t" using assms(1,2) by (rule Context_resolution_pos)
  have k1: "bucketKey (resolution t) (UnixNano at1) = ceilingMultiple (resolution t) at1"
    using r assms(5,6) by (rule bucketKey_window)
  have k2: "bucketKey (resolution t) (UnixNano at2) = ceilingMultiple (resolution t) at2"
    using r assms(7,8) by (rule bucketKey_window)
  from same_key_same_context [OF assms(1-4)] show ?thesis unfolding k1 k2 .
qed

text \<open>
  The theorem at work on a one-second timeline: a first request ten seconds ahead of
  \<open>now\<close>, a request for the next window, and then a request in the window of the first,
  which gets the context of the first.
\<close>

theorem same_window_same_context_witness:
  "valid (zeroTimeline 1000000000 None) [] \<and>
   Context (zeroTimeline 1000000000 None) [] 1700000010200000000 1700000000000000000 7 =
     Inr (0,
          \<lparr>Resolution = 1000000000, Background = None,
           deadlines = Some [(1700000011000000000, \<lparr>d_context = 0, d_cancel = 0\<rparr>)],
           cleanupLock = 0, cleanupTime = 100000000000\<rparr>,
          [\<lparr>c_deadline = Some 1700000011000000007, cancelled = False\<rparr>]) \<and>
   run
     \<lparr>Resolution = 1000000000, Background = None,
      deadlines = Some [(1700000011000000000, \<lparr>d_context = 0, d_cancel = 0\<rparr>)],
      cleanupLock = 0, cleanupTime = 100000000000\<rparr>
     [\<lparr>c_deadline = Some 1700000011000000007, cancelled = False\<rparr>]
     [DoContext 1700000011000000001 1700000000000000001 8] =
     Inr (\<lparr>Resolution = 1000000000, Background = None,
           deadlines = Some [(1700000011000000000, \<lparr>d_context = 0, d_cancel = 0\<rparr>),
                             (1700000012000000000, \<lparr>d_context = 1, d_cancel = 1\<rparr>)],
           cleanupLock = 0, cleanupTime = 200000000000\<rparr>,
          [\<lparr>c_deadline = Some 1700000011000000007, cancelled = False\<rparr>,
           \<lparr>c_deadline = Some 1700000012000000008, cancelled = False\<rparr>]) \<and>
   Context
     \<lparr>Resolution = 1000000000, Background = None,
      deadlines = Some [(1700000011000000000, \<lparr>d_context = 0, d_cancel = 0\<rparr>),
                        (1700000012000000000, \<lparr>d_context = 1, d_cancel = 1\<rparr>)],
      cleanupLock = 0, cleanupTime = 200000000000\<rparr>
     [\<lparr>c_deadline = Some 1700000011000000007, cancelled = False\<rparr>,
      \<lparr>c_deadline = Some 1700000012000000008, cancelled = False\<rparr>]
     1700000010900000000 1700000000000000002 9 =
     Inr (0,
          \<lparr>Resolution = 1000000000, Background = None,
           deadlines = Some [(1700000011000000000, \<lparr>d_context = 0, d_cancel = 0\<rparr>),
                             (1700000012000000000, \<lparr>d_context = 1, d_cancel = 1\<rparr>)],
           cleanupLock = 0, cleanupTime = 200000000000\<rparr>,
          [\<lparr>c_deadline = Some 1700000011000000007, cancelled = False\<rparr>,
           \<lparr>c_deadline = Some 1700000012000000008, cancelled = False\<rparr>]) \<and>
   Context
     \<lparr>Resolution = 1000000000, Background = None,
      deadlines = Some [(1700000011000000000, \<lparr>d_context = 0, d_cancel = 0\<rparr>)],
      cleanupLock = 0, cleanupTime = 100000000000\<rparr>
     [\<lparr>c_deadline = Some 1700000011000000007, cancelled = False\<rparr>]
     1700000011000000001 1700000000000000001 8 =
     Inr (1,
          \<lparr>Resolution = 1000000000, Background = None,
           deadlines = Some [(1700000011000000000, \<lparr>d_context = 0, d_cancel = 0\<rparr>),
                             (1700000012000000000, \<lparr>d_context = 1, d_cancel = 1\<rparr>)],
           cleanupLock = 0, cleanupTime = 200000000000\<rparr>,
          [\<lparr>c_deadline = Some 1700000011000000007, cancelled = False\<rparr>,
           \<lparr>c_deadline = Some 1700000012000000008, cancelled = False\<rparr>]) \<and>
   ceilingMultiple 1000000000 1700000010200000000 = 1700000011000000000 \<and>
   ceilingMultiple 1000000000 1700000010900000000 = 1700000011000000000 \<and>
   ceilingMultiple 1000000000 1700000011000000001 = 1700000012000000000 \<and>
   calm (Add (Deadline_of [\<lparr>c_deadline = Some 1700000011000000007, cancelled = False\<rparr>] 0)
          1000000000)
     [DoContext 1700000011000000001 1700000000000000001 8]"
proof -
  let ?t = "zeroTimeline 1000000000 None"
  let ?t1 = "\<lparr>Resolution = 1000000000, Background = None,
      deadlines = Some [(1700000011000000000, \<lparr>d_context = 0, d_cancel = 0\<rparr>)],
      cleanupLock = 0, cleanupTime = 100000000000\<rparr>"
  let ?h1 = "[\<lparr>c_deadline = Some 1700000011000000007, cancelled = False\<rparr>]"
  let ?t2 = "\<lparr>Resolution = 1000000000, Background = None,
           deadlines = Some [(1700000011000000000, \<lparr>d_context = 0, d_cancel = 0\<rparr>),
                             (1700000012000000000, \<lparr>d_context = 1, d_cancel = 1\<rparr>)],
           cleanupLock = 0, cleanupTime = 200000000000\<rparr>"
  let ?h2 = "[\<lparr>c_deadline = Some 1700000011000000007, cancelled = False\<rparr>,
           \<lparr>c_deadline = Some 1700000012000000008, cancelled = False\<rparr>]"
  have v: "valid ?t []" by (simp add: valid_ev model_ev)
  have a: "Context ?t [] 1700000010200000000 1700000000000000000 7 = Inr (0, ?t1, ?h1)"
    by (simp add: model_ev)
  have c: "Context ?t1 ?h1 1700000011000000001 1700000000000000001 8 = Inr (1, ?t2, ?h2)"
    by (simp add: model_ev)
  have r: "run ?t1 ?h1 [DoContext 1700000011000000001 1700000000000000001 8] = Inr (?t2, ?h2)"
    using c by simp
  have r0: "run ?t1 ?h1 [] = Inr (?t1, ?h1)" by simp
  have b: "Context ?t2 ?h2 1700000010900000000 1700000000000000002 9 = Inr (0, ?t2, ?h2)"
    by (simp add: model_ev)
  have k: "ceilingMultiple 1000000000 1700000010200000000 = 1700000011000000000"
    "ceilingMultiple 1000000000 1700000010900000000 = 1700000011000000000"
    "ceilingMultiple 1000000000 1700000011000000001 = 1700000012000000000"
    by (simp_all add: ceilingMultiple_def)
  have p: "(0::int) \<le> 1700000010200000000" "1700000010200000000 + resolution ?t < 2 ^ 63"
    "(0::int) \<le> 1700000010900000000" "1700000010900000000 + resolution ?t < 2 ^ 63"
    "(0::int) \<le> 1700000011000000001" "1700000011000000001 + resolution ?t < 2 ^ 63"
    by (simp_all add: model_ev)
  have m: "calm (Add (Deadline_of ?h1 0) 1000000000)
     [DoContext 1700000011000000001 1700000000000000001 8]"
    by (simp add: model_ev)
  from same_window_same_context [OF v a r b p(1,2,3,4)]
    same_window_same_context [OF v a r0 c p(1,2,5,6)]
  show ?thesis using v a r b c k m by simp
qed

text \<open>
  Claim C1 as stated fails: on a one-second timeline, a request for an instant five
  seconds before \<open>now\<close> creates the bucket, and the sweep of that same call cancels and
  removes it; the same request again gets a new context, handle 1 after handle 0.
\<close>

theorem same_window_swept_counterexample:
  "Context (zeroTimeline 1000000000 None) [] 1700000000000000000 1700000005000000000 0 =
     Inr (0,
          \<lparr>Resolution = 1000000000, Background = None, deadlines = Some [],
           cleanupLock = 0, cleanupTime = 100000000000\<rparr>,
          [\<lparr>c_deadline = Some 1700000000000000000, cancelled = True\<rparr>]) \<and>
   Context
     \<lparr>Resolution = 1000000000, Background = None, deadlines = Some [],
      cleanupLock = 0, cleanupTime = 100000000000\<rparr>
     [\<lparr>c_deadline = Some 1700000000000000000, cancelled = True\<rparr>]
     1700000000000000000 1700000005000000000 0 =
     Inr (1,
          \<lparr>Resolution = 1000000000, Background = None, deadlines = Some [],
           cleanupLock = 0, cleanupTime = 200000000000\<rparr>,
          [\<lparr>c_deadline = Some 1700000000000000000, cancelled = True\<rparr>,
           \<lparr>c_deadline = Some 1700000000000000000, cancelled = True\<rparr>])"
  by (simp add: model_ev)

section \<open>C2: the deadline of the returned context\<close>

text \<open>
  Claim C2, as amended. From a state the operations produce, the context that
  \<open>Context(at, now)\<close> returns has a deadline earlier than the bucket boundary plus the
  resolution, and one that is no earlier than the boundary unless it is the deadline of
  the background context. When the background context has no deadline, or none before
  the boundary plus the resolution, the deadline is the boundary plus an offset in
  \<open>[0, r)\<close>.
\<close>

theorem Context_deadline_in_window:
  assumes "valid t h" and "Context t h at now rnd = Inr (c, t', h')"
  shows "c < length h' \<and>
    (\<exists>dl. c_deadline (h' ! c) = Some dl \<and>
       dl < bucketKey (resolution t) (UnixNano at) + resolution t \<and>
       (bucketKey (resolution t) (UnixNano at) \<le> dl \<or> c_deadline (background t) = Some dl)) \<and>
    ((\<forall>b. c_deadline (background t) = Some b \<longrightarrow>
          bucketKey (resolution t) (UnixNano at) + resolution t \<le> b) \<longrightarrow>
       (\<exists>j. 0 \<le> j \<and> j < resolution t \<and>
          c_deadline (h' ! c) = Some (Add (Unix0 (bucketKey (resolution t) (UnixNano at))) j)))"
proof -
  let ?k = "bucketKey (resolution t) (UnixNano at)"
  from Context_deadline_ok [OF assms] obtain dl where
    c: "c < length h'" and dl: "c_deadline (h' ! c) = Some dl"
    and ok: "deadline_ok (c_deadline (background t)) (resolution t) ?k dl"
    by blast
  have 1: "dl < ?k + resolution t \<and> (?k \<le> dl \<or> c_deadline (background t) = Some dl)"
    using ok by (auto simp: deadline_ok_def split: option.splits)
  have 2: "\<exists>j. 0 \<le> j \<and> j < resolution t \<and> c_deadline (h' ! c) = Some (Add (Unix0 ?k) j)"
    if "\<forall>b. c_deadline (background t) = Some b \<longrightarrow> ?k + resolution t \<le> b"
  proof -
    have "?k \<le> dl \<and> dl < ?k + resolution t"
      using ok that by (auto simp: deadline_ok_def split: option.splits)
    then have "0 \<le> dl - ?k \<and> dl - ?k < resolution t \<and>
        c_deadline (h' ! c) = Some (Add (Unix0 ?k) (dl - ?k))"
      using dl by (simp add: Add_def Unix0_def)
    then show ?thesis by blast
  qed
  show ?thesis using c dl 1 2 by blast
qed

theorem Context_deadline_in_window_witness:
  "valid (zeroTimeline 1000000000 None) [] \<and>
   Context (zeroTimeline 1000000000 None) [] 1700000010200000000 1700000000000000000 123456789 =
     Inr (0,
          \<lparr>Resolution = 1000000000, Background = None,
           deadlines = Some [(1700000011000000000, \<lparr>d_context = 0, d_cancel = 0\<rparr>)],
           cleanupLock = 0, cleanupTime = 100000000000\<rparr>,
          [\<lparr>c_deadline = Some 1700000011123456789, cancelled = False\<rparr>]) \<and>
   c_deadline (background (zeroTimeline 1000000000 None)) = None \<and>
   bucketKey (resolution (zeroTimeline 1000000000 None)) (UnixNano 1700000010200000000) =
     1700000011000000000"
proof -
  let ?t = "zeroTimeline 1000000000 None"
  have v: "valid ?t []" by (simp add: valid_ev model_ev)
  have a: "Context ?t [] 1700000010200000000 1700000000000000000 123456789 =
     Inr (0,
          \<lparr>Resolution = 1000000000, Background = None,
           deadlines = Some [(1700000011000000000, \<lparr>d_context = 0, d_cancel = 0\<rparr>)],
           cleanupLock = 0, cleanupTime = 100000000000\<rparr>,
          [\<lparr>c_deadline = Some 1700000011123456789, cancelled = False\<rparr>])"
    by (simp add: model_ev)
  have b: "c_deadline (background ?t) = None" by (simp add: model_ev)
  have k: "bucketKey (resolution ?t) (UnixNano 1700000010200000000) = 1700000011000000000"
    by (simp add: model_ev)
  from Context_deadline_in_window [OF v a] show ?thesis using v a b k by simp
qed

text \<open>
  Claim C2 as stated fails when the background context has an earlier deadline: the
  bucket boundary is 1700000001000000000, and the returned context has the deadline of
  the background, 1699999997000000000, which is before the boundary.
\<close>

theorem Context_deadline_background_counterexample:
  "bucketKey 1000000000 (UnixNano 1700000000500000000) = 1700000001000000000 \<and>
   Context
     (zeroTimeline 1000000000 (Some \<lparr>c_deadline = Some 1699999997000000000, cancelled = False\<rparr>))
     [] 1700000000500000000 1699999990000000000 0 =
     Inr (0,
          \<lparr>Resolution = 1000000000,
           Background = Some \<lparr>c_deadline = Some 1699999997000000000, cancelled = False\<rparr>,
           deadlines = Some [(1700000001000000000, \<lparr>d_context = 0, d_cancel = 0\<rparr>)],
           cleanupLock = 0, cleanupTime = 100000000000\<rparr>,
          [\<lparr>c_deadline = Some 1699999997000000000, cancelled = False\<rparr>])"
  by (simp add: model_ev)

section \<open>C3: the cadence of the sweep\<close>

text \<open>
  Claim C3. The cleanup sweep runs at most once per 100 resolutions of elapsed time: no
  two sweeps start within the same window of 100 resolutions.
  The code does not do that. The stored time starts at the Unix epoch, the test
  \<open>IsZero\<close> never holds of it, and a sweep republishes it as the stored time plus 100
  resolutions, not as \<open>now\<close> plus 100 resolutions; until it has caught up with the clock
  every call that misses the cache sweeps. On a fresh one-second timeline two calls in a
  row with the same \<open>now\<close>, for instants five and three seconds before it, each create a
  bucket and each scan the map: each call returns its context cancelled and leaves the
  map empty, which only its own scan does, and the stored time goes from 0 to 100 and to
  200 seconds after the epoch.
\<close>

theorem sweep_not_throttled:
  "Context (zeroTimeline 1000000000 None) [] 1699999995000000000 1700000000000000000 0 =
     Inr (0,
          \<lparr>Resolution = 1000000000, Background = None, deadlines = Some [],
           cleanupLock = 0, cleanupTime = 100000000000\<rparr>,
          [\<lparr>c_deadline = Some 1699999995000000000, cancelled = True\<rparr>]) \<and>
   Context
     \<lparr>Resolution = 1000000000, Background = None, deadlines = Some [],
      cleanupLock = 0, cleanupTime = 100000000000\<rparr>
     [\<lparr>c_deadline = Some 1699999995000000000, cancelled = True\<rparr>]
     1699999997000000000 1700000000000000000 0 =
     Inr (1,
          \<lparr>Resolution = 1000000000, Background = None, deadlines = Some [],
           cleanupLock = 0, cleanupTime = 200000000000\<rparr>,
          [\<lparr>c_deadline = Some 1699999995000000000, cancelled = True\<rparr>,
           \<lparr>c_deadline = Some 1699999997000000000, cancelled = True\<rparr>]) \<and>
   nextCleanupTime (zeroTimeline 1000000000 None) (loadCleanupTime (zeroTimeline 1000000000 None)) =
     100000000000 \<and>
   \<not> IsZero (loadCleanupTime (zeroTimeline 1000000000 None)) \<and>
   Before 100000000000 1700000000000000000"
  by (simp add: model_ev)

section \<open>C4 and C5: the bucket key\<close>

text \<open>
  Claim C4. The bucket key that \<open>Context\<close> computes is the ceiling of the nanosecond
  timestamp to a multiple of the resolution, also for timestamps before the epoch.
  The code does not do that before the epoch: Go's division truncates towards zero, so
  for a negative timestamp that is not a multiple the quotient is already rounded up, and
  adding one goes one window too far. On the zero-value timeline (resolution 100ms) the
  instant one nanosecond before the epoch gets the key 100000000; the ceiling is 0.
\<close>

theorem bucketKey_pre_epoch_not_ceiling:
  "bucketKey (resolution (zeroTimeline 0 None)) (UnixNano (- 1)) = 100000000 \<and>
   ceilingMultiple (resolution (zeroTimeline 0 None)) (UnixNano (- 1)) = 0"
  by (simp add: arith_ev resolution_def zeroTimeline_def Millisecond_def ceilingMultiple_def)

text \<open>
  Claim C5. The bucket key is monotone in the instant, also before the epoch.
  The code is not: for the same reason as in C4, the instant one nanosecond before the
  epoch gets the key 100000000 on the zero-value timeline, and the epoch itself, which is
  later, gets the key 0.
\<close>

theorem bucketKey_pre_epoch_not_monotone:
  "UnixNano (- 1) \<le> UnixNano 0 \<and>
   bucketKey (resolution (zeroTimeline 0 None)) (UnixNano 0) <
   bucketKey (resolution (zeroTimeline 0 None)) (UnixNano (- 1))"
  by (simp add: arith_ev resolution_def zeroTimeline_def Millisecond_def)

section \<open>C6: the grace window of the sweep\<close>

text \<open>
  Claim C6. In a state the operations produce, \<open>cleanup\<close> removes a bucket entry, or
  cancels its context, only when \<open>now\<close> is strictly after the deadline of the entry's
  context plus one resolution. So an entry whose deadline has not passed stays in the map
  with its context as it was, and so does an entry within the grace window. An entry
  past its grace window is removed and its context cancelled.
\<close>

theorem cleanup_respects_grace:
  assumes "valid t h" and "(k, d) \<in> set (entries (deadlines t))"
    and "cleanup t h now = (t', h')"
  shows "(lookup (deadlines t') k \<noteq> Some d \<or> h' ! d_context d \<noteq> h ! d_context d \<longrightarrow>
            After now (Add (Deadline_of h (d_context d)) (resolution t))) \<and>
         (\<not> After now (Deadline_of h (d_context d)) \<longrightarrow>
            lookup (deadlines t') k = Some d \<and> h' ! d_context d = h ! d_context d) \<and>
         (After now (Add (Deadline_of h (d_context d)) (resolution t)) \<longrightarrow>
            lookup (deadlines t') k = None \<and> cancelled (h' ! d_context d))"
proof -
  let ?ds = "entries (deadlines t)"
  let ?P = "expired now (resolution t) h"
  have dist: "distinct (map fst ?ds)" using assms(1) by (simp add: valid_def)
  have t': "t' = t\<lparr>deadlines := map_option (filter (\<lambda>e. \<not> ?P e)) (deadlines t)\<rparr>"
    and h': "h' = cancel_all (filter ?P ?ds) h"
    using cleanup_eq [OF dist, of h now] assms(3) by simp_all
  have e': "entries (deadlines t') = filter (\<lambda>e. \<not> ?P e) ?ds"
    unfolding t' by (cases "deadlines t") simp_all
  have dist': "distinct (map fst (entries (deadlines t')))"
    unfolding e' using dist by (simp add: distinct_map_filter)
  have ok: "entry_ok t h (k, d)" using assms(1,2) by (simp add: valid_def list_all_iff)
  have keep: "lookup (deadlines t') k = Some d \<and> h' ! d_context d = h ! d_context d"
    if ne: "\<not> ?P (k, d)"
  proof
    show "lookup (deadlines t') k = Some d"
      using ne assms(2) by (simp add: lookup_Some_iff [OF dist'] e')
    have "d_context d \<notin> (\<lambda>e. d_cancel (snd e)) ` set (filter ?P ?ds)"
    proof
      assume "d_context d \<in> (\<lambda>e. d_cancel (snd e)) ` set (filter ?P ?ds)"
      then obtain e where e: "e \<in> set ?ds" "?P e" "d_cancel (snd e) = d_context d" by auto
      have "entry_ok t h e" using assms(1) e(1) by (simp add: valid_def list_all_iff)
      then have "d_context (snd e) = d_context (snd (k, d))" using e(3) by (simp add: entry_ok_def)
      then have "e = (k, d)" using valid_context_inj [OF assms(1) e(1) assms(2)] by simp
      then show False using e(2) ne by simp
    qed
    then show "h' ! d_context d = h ! d_context d" unfolding h' by (rule cancel_all_other)
  qed
  have gone: "lookup (deadlines t') k = None \<and> cancelled (h' ! d_context d)" if ex: "?P (k, d)"
  proof
    have "(k, d') \<notin> set (entries (deadlines t'))" for d'
    proof
      assume "(k, d') \<in> set (entries (deadlines t'))"
      then have m: "(k, d') \<in> set ?ds" and n: "\<not> ?P (k, d')" unfolding e' by simp_all
      from m assms(2) dist have "d' = d" by (rule eq_key_imp_eq_value [rotated 1])
      then show False using n ex by simp
    qed
    then show "lookup (deadlines t') k = None"
      by (force simp: lookup_None_iff)
    have "d_context d < length h" "d_cancel d = d_context d" using ok by (simp_all add: entry_ok_def)
    moreover have "(k, d) \<in> set (filter ?P ?ds)" using assms(2) ex by simp
    ultimately show "cancelled (h' ! d_context d)"
      unfolding h' by (force simp: cancelled_cancel_all)
  qed
  have r: "0 < resolution t" using assms(1,2) by (auto simp: valid_def)
  have "\<not> ?P (k, d)" if "\<not> After now (Deadline_of h (d_context d))"
    using that r by (simp add: expired_def After_def Add_def)
  then show ?thesis using keep gone by (auto simp: expired_def)
qed

text \<open>
  Two buckets at time 60 with resolution 10: the one with deadline 13 is past its grace
  window and goes, the one with deadline 55 stays as it is.
\<close>

theorem cleanup_respects_grace_witness:
  "valid
     \<lparr>Resolution = 10, Background = None,
      deadlines = Some [(10, \<lparr>d_context = 0, d_cancel = 0\<rparr>), (50, \<lparr>d_context = 1, d_cancel = 1\<rparr>)],
      cleanupLock = 0, cleanupTime = 0\<rparr>
     [\<lparr>c_deadline = Some 13, cancelled = False\<rparr>, \<lparr>c_deadline = Some 55, cancelled = False\<rparr>] \<and>
   cleanup
     \<lparr>Resolution = 10, Background = None,
      deadlines = Some [(10, \<lparr>d_context = 0, d_cancel = 0\<rparr>), (50, \<lparr>d_context = 1, d_cancel = 1\<rparr>)],
      cleanupLock = 0, cleanupTime = 0\<rparr>
     [\<lparr>c_deadline = Some 13, cancelled = False\<rparr>, \<lparr>c_deadline = Some 55, cancelled = False\<rparr>] 60 =
     (\<lparr>Resolution = 10, Background = None,
       deadlines = Some [(50, \<lparr>d_context = 1, d_cancel = 1\<rparr>)],
       cleanupLock = 0, cleanupTime = 0\<rparr>,
      [\<lparr>c_deadline = Some 13, cancelled = True\<rparr>, \<lparr>c_deadline = Some 55, cancelled = False\<rparr>]) \<and>
   \<not> After 60 (Add (Deadline_of
       [\<lparr>c_deadline = Some 13, cancelled = False\<rparr>, \<lparr>c_deadline = Some 55, cancelled = False\<rparr>] 1) 10) \<and>
   After 60 (Add (Deadline_of
       [\<lparr>c_deadline = Some 13, cancelled = False\<rparr>, \<lparr>c_deadline = Some 55, cancelled = False\<rparr>] 0) 10)"
proof -
  let ?t = "\<lparr>Resolution = 10, Background = None,
      deadlines = Some [(10, \<lparr>d_context = 0, d_cancel = 0\<rparr>), (50, \<lparr>d_context = 1, d_cancel = 1\<rparr>)],
      cleanupLock = 0, cleanupTime = 0\<rparr>"
  let ?h = "[\<lparr>c_deadline = Some 13, cancelled = False\<rparr>, \<lparr>c_deadline = Some 55, cancelled = False\<rparr>]"
  let ?t' = "\<lparr>Resolution = 10, Background = None,
       deadlines = Some [(50, \<lparr>d_context = 1, d_cancel = 1\<rparr>)],
       cleanupLock = 0, cleanupTime = 0\<rparr>"
  let ?h' = "[\<lparr>c_deadline = Some 13, cancelled = True\<rparr>, \<lparr>c_deadline = Some 55, cancelled = False\<rparr>]"
  have v: "valid ?t ?h" by (simp add: valid_ev model_ev)
  have e0: "(10, \<lparr>d_context = 0, d_cancel = 0\<rparr>) \<in> set (entries (deadlines ?t))"
    and e1: "(50, \<lparr>d_context = 1, d_cancel = 1\<rparr>) \<in> set (entries (deadlines ?t))"
    by simp_all
  have c: "cleanup ?t ?h 60 = (?t', ?h')" by (simp add: model_ev)
  have g: "\<not> After 60 (Add (Deadline_of ?h 1) 10)" "After 60 (Add (Deadline_of ?h 0) 10)"
    by (simp_all add: model_ev)
  from cleanup_respects_grace [OF v e0 c] cleanup_respects_grace [OF v e1 c]
  show ?thesis using v c g by simp
qed

section \<open>C7: Cancel, and the timeline after it\<close>

text \<open>
  Claim C7, as amended. From a state the operations produce, \<open>Cancel\<close> calls the cancel
  function of every bucket entry and leaves the map nil. The timeline remains usable:
  with a resolution that is not negative the next \<open>Context\<close> call returns, and whenever
  it returns it has allocated a map and returns a new context. That context is cancelled
  exactly when the background context is cancelled or the sweep of that same call found
  \<open>now\<close> after its deadline plus one resolution.
\<close>

theorem Cancel_then_Context:
  assumes "valid t h" and "Cancel t h = (t1, h1)"
  shows "deadlines t1 = None \<and> length h1 = length h \<and>
         (\<forall>e \<in> set (entries (deadlines t)).
            cancelled (h1 ! d_cancel (snd e)) \<and> cancelled (h1 ! d_context (snd e))) \<and>
         (0 \<le> Resolution t \<longrightarrow> (\<exists>c t2 h2. Context t1 h1 at now rnd = Inr (c, t2, h2))) \<and>
         (\<forall>c t2 h2. Context t1 h1 at now rnd = Inr (c, t2, h2) \<longrightarrow>
            c = length h1 \<and> deadlines t2 \<noteq> None \<and>
            cancelled (h2 ! c) =
              (cancelled (background t) \<or>
               (cleanupDue t now \<and> After now (Add (Deadline_of h2 c) (resolution t)))))"
proof -
  have t1: "t1 = t\<lparr>deadlines := None\<rparr>" and h1: "h1 = cancel_all (entries (deadlines t)) h"
    using assms(2) by (simp_all add: Cancel_eq)
  have v1: "valid t1 h1" using valid_Cancel [of t h] assms(2) by simp
  have e1: "entries (deadlines t1) = []" by (simp add: t1)
  have cfg: "background t1 = background t" "resolution t1 = resolution t"
    "cleanupDue t1 now = cleanupDue t now" "Resolution t1 = Resolution t"
    by (simp_all add: t1 background_def resolution_def cleanupDue_def loadCleanupTime_def
        tryLockCleanup_def)
  have A: "cancelled (h1 ! d_cancel (snd e)) \<and> cancelled (h1 ! d_context (snd e))"
    if "e \<in> set (entries (deadlines t))" for e
  proof -
    have "entry_ok t h e" using assms(1) that by (simp add: valid_def list_all_iff)
    then have "d_cancel (snd e) = d_context (snd e)" "d_context (snd e) < length h"
      by (simp_all add: entry_ok_def)
    then show ?thesis using that by (force simp: h1 cancelled_cancel_all)
  qed
  have B: "\<exists>c t2 h2. Context t1 h1 at now rnd = Inr (c, t2, h2)" if "0 \<le> Resolution t"
    using that Context_returns [of t1 h1 at now rnd] cfg(4) by simp
  have C: "c = length h1 \<and> deadlines t2 \<noteq> None \<and>
           cancelled (h2 ! c) =
             (cancelled (background t) \<or>
              (cleanupDue t now \<and> After now (Add (Deadline_of h2 c) (resolution t))))"
    if "Context t1 h1 at now rnd = Inr (c, t2, h2)" for c t2 h2
    using Context_fresh_cancelled [OF v1 e1 that] unfolding cfg by blast
  show ?thesis using A B C by (simp add: t1 h1)
qed

text \<open>
  A one-second timeline with one bucket: \<open>Cancel\<close> cancels its context, and the next
  request, ten seconds ahead of \<open>now\<close>, gets the new context 1, not cancelled.
\<close>

theorem Cancel_then_Context_witness:
  "valid
     \<lparr>Resolution = 1000000000, Background = None,
      deadlines = Some [(1700000011000000000, \<lparr>d_context = 0, d_cancel = 0\<rparr>)],
      cleanupLock = 0, cleanupTime = 100000000000\<rparr>
     [\<lparr>c_deadline = Some 1700000011000000007, cancelled = False\<rparr>] \<and>
   Cancel
     \<lparr>Resolution = 1000000000, Background = None,
      deadlines = Some [(1700000011000000000, \<lparr>d_context = 0, d_cancel = 0\<rparr>)],
      cleanupLock = 0, cleanupTime = 100000000000\<rparr>
     [\<lparr>c_deadline = Some 1700000011000000007, cancelled = False\<rparr>] =
     (\<lparr>Resolution = 1000000000, Background = None, deadlines = None,
       cleanupLock = 0, cleanupTime = 100000000000\<rparr>,
      [\<lparr>c_deadline = Some 1700000011000000007, cancelled = True\<rparr>]) \<and>
   Context
     \<lparr>Resolution = 1000000000, Background = None, deadlines = None,
      cleanupLock = 0, cleanupTime = 100000000000\<rparr>
     [\<lparr>c_deadline = Some 1700000011000000007, cancelled = True\<rparr>]
     1700000010200000000 1700000000000000000 7 =
     Inr (1,
          \<lparr>Resolution = 1000000000, Background = None,
           deadlines = Some [(1700000011000000000, \<lparr>d_context = 1, d_cancel = 1\<rparr>)],
           cleanupLock = 0, cleanupTime = 200000000000\<rparr>,
          [\<lparr>c_deadline = Some 1700000011000000007, cancelled = True\<rparr>,
           \<lparr>c_deadline = Some 1700000011000000007, cancelled = False\<rparr>])"
proof -
  let ?t = "\<lparr>Resolution = 1000000000, Background = None,
      deadlines = Some [(1700000011000000000, \<lparr>d_context = 0, d_cancel = 0\<rparr>)],
      cleanupLock = 0, cleanupTime = 100000000000\<rparr>"
  let ?h = "[\<lparr>c_deadline = Some 1700000011000000007, cancelled = False\<rparr>]"
  let ?t1 = "\<lparr>Resolution = 1000000000, Background = None, deadlines = None,
       cleanupLock = 0, cleanupTime = 100000000000\<rparr>"
  let ?h1 = "[\<lparr>c_deadline = Some 1700000011000000007, cancelled = True\<rparr>]"
  have v: "valid ?t ?h" by (simp add: valid_ev model_ev)
  have c: "Cancel ?t ?h = (?t1, ?h1)" by (simp add: model_ev)
  have a: "Context ?t1 ?h1 1700000010200000000 1700000000000000000 7 =
     Inr (1,
          \<lparr>Resolution = 1000000000, Background = None,
           deadlines = Some [(1700000011000000000, \<lparr>d_context = 1, d_cancel = 1\<rparr>)],
           cleanupLock = 0, cleanupTime = 200000000000\<rparr>,
          [\<lparr>c_deadline = Some 1700000011000000007, cancelled = True\<rparr>,
           \<lparr>c_deadline = Some 1700000011000000007, cancelled = False\<rparr>])"
    by (simp add: model_ev)
  from Cancel_then_Context
    [OF v c, where at = 1700000010200000000 and now = 1700000000000000000 and rnd = 7]
  show ?thesis using v c a by simp
qed

text \<open>
  Claim C7 as stated fails. On a timeline whose background context is cancelled, the
  context that the first request after \<open>Cancel\<close> returns is new and cancelled from the
  start. And on a fresh one-second timeline, a request after \<open>Cancel\<close> for an instant
  five seconds before \<open>now\<close> returns a new context that the sweep of the same call has
  cancelled already.
\<close>

theorem Cancel_then_Context_cancelled_counterexample:
  "Cancel (zeroTimeline 1000000000 (Some \<lparr>c_deadline = None, cancelled = True\<rparr>)) [] =
     (zeroTimeline 1000000000 (Some \<lparr>c_deadline = None, cancelled = True\<rparr>), []) \<and>
   Context (zeroTimeline 1000000000 (Some \<lparr>c_deadline = None, cancelled = True\<rparr>)) []
     1700000010000000000 1700000000000000000 0 =
     Inr (0,
          \<lparr>Resolution = 1000000000, Background = Some \<lparr>c_deadline = None, cancelled = True\<rparr>,
           deadlines = Some [(1700000010000000000, \<lparr>d_context = 0, d_cancel = 0\<rparr>)],
           cleanupLock = 0, cleanupTime = 100000000000\<rparr>,
          [\<lparr>c_deadline = Some 1700000010000000000, cancelled = True\<rparr>]) \<and>
   Cancel (zeroTimeline 1000000000 None) [] = (zeroTimeline 1000000000 None, []) \<and>
   Context (zeroTimeline 1000000000 None) [] 1700000000000000000 1700000005000000000 0 =
     Inr (0,
          \<lparr>Resolution = 1000000000, Background = None, deadlines = Some [],
           cleanupLock = 0, cleanupTime = 100000000000\<rparr>,
          [\<lparr>c_deadline = Some 1700000000000000000, cancelled = True\<rparr>])"
  by (simp add: model_ev)

section \<open>C8: callers racing for one bucket\<close>

text \<open>
  Claim C8, as amended. From a state the operations produce in which the map has no
  entry at key \<open>k\<close>, let any number of callers that missed \<open>k\<close> on the fast path run
  their locked sections and their sweeps in any order. At every point the map has at
  most one entry per key. If no sweep among them changes what the map holds at \<open>k\<close>,
  exactly one context is created, the first locked section stores it at \<open>k\<close>, and every
  caller receives it.
\<close>

theorem racing_callers_share_one_context:
  assumes "valid t h" and "lookup (deadlines t) k = None"
    and "race t h k es = Inr (cs, t', h')"
  shows "distinct (map fst (entries (deadlines t'))) \<and>
         (undisturbed k t h es \<longrightarrow>
            length cs = lockedCount es \<and> (\<forall>c \<in> set cs. c = length h) \<and>
            length h' = (if lockedCount es = 0 then length h else Suc (length h)) \<and>
            (0 < lockedCount es \<longrightarrow> lookup (deadlines t') k = Some (newEntry h)))"
proof -
  have "valid t' h'" using assms(1,3) by (rule valid_race)
  then have "distinct (map fst (entries (deadlines t')))" by (simp add: valid_def)
  moreover have "length cs = lockedCount es \<and> (\<forall>c \<in> set cs. c = length h) \<and>
      length h' = (if lockedCount es = 0 then length h else Suc (length h)) \<and>
      (0 < lockedCount es \<longrightarrow> lookup (deadlines t') k = Some (newEntry h))"
    if "undisturbed k t h es"
    using race_missing [OF assms(1,2) that assms(3)] by simp
  ultimately show ?thesis by simp
qed

text \<open>
  Three callers on a fresh one-second timeline, one of them sweeping ten seconds before
  the bucket boundary: one context, handle 0, for all three.
\<close>

theorem racing_callers_share_one_context_witness:
  "valid (zeroTimeline 1000000000 None) [] \<and>
   lookup (deadlines (zeroTimeline 1000000000 None)) 1700000011000000000 = None \<and>
   undisturbed 1700000011000000000 (zeroTimeline 1000000000 None) []
     [Locked 7, Locked 8, Swept 1700000000000000000, Locked 9] \<and>
   race (zeroTimeline 1000000000 None) [] 1700000011000000000
     [Locked 7, Locked 8, Swept 1700000000000000000, Locked 9] =
     Inr ([0, 0, 0],
          \<lparr>Resolution = 1000000000, Background = None,
           deadlines = Some [(1700000011000000000, \<lparr>d_context = 0, d_cancel = 0\<rparr>)],
           cleanupLock = 0, cleanupTime = 100000000000\<rparr>,
          [\<lparr>c_deadline = Some 1700000011000000007, cancelled = False\<rparr>]) \<and>
   lockedCount [Locked 7, Locked 8, Swept 1700000000000000000, Locked 9] = 3"
proof -
  let ?t = "zeroTimeline 1000000000 None"
  let ?es = "[Locked 7, Locked 8, Swept 1700000000000000000, Locked 9]"
  have v: "valid ?t []" by (simp add: valid_ev model_ev)
  have l: "lookup (deadlines ?t) 1700000011000000000 = None" by (simp add: model_ev)
  have u: "undisturbed 1700000011000000000 ?t [] ?es" by (simp add: model_ev)
  have r: "race ?t [] 1700000011000000000 ?es =
     Inr ([0, 0, 0],
          \<lparr>Resolution = 1000000000, Background = None,
           deadlines = Some [(1700000011000000000, \<lparr>d_context = 0, d_cancel = 0\<rparr>)],
           cleanupLock = 0, cleanupTime = 100000000000\<rparr>,
          [\<lparr>c_deadline = Some 1700000011000000007, cancelled = False\<rparr>])"
    by (simp add: model_ev)
  have n: "lockedCount ?es = 3" by simp
  from racing_callers_share_one_context [OF v l r] show ?thesis using v l u r n by simp
qed

text \<open>
  Claim C8 as stated fails: two callers have missed the key on the fast path; the first
  creates the bucket and, its \<open>now\<close> being five seconds after the bucket's deadline, its
  sweep cancels and removes it; the re-check of the second then finds nothing and creates
  a second context. The callers receive the handles 0 and 1.
\<close>

theorem racing_callers_swept_counterexample:
  "lookup (deadlines (zeroTimeline 1000000000 None)) 1700000000000000000 = None \<and>
   getOrCreate (zeroTimeline 1000000000 None) [] 1700000000000000000 1000000000 0 =
     Inr (\<lparr>d_context = 0, d_cancel = 0\<rparr>,
          \<lparr>Resolution = 1000000000, Background = None,
           deadlines = Some [(1700000000000000000, \<lparr>d_context = 0, d_cancel = 0\<rparr>)],
           cleanupLock = 0, cleanupTime = 0\<rparr>,
          [\<lparr>c_deadline = Some 1700000000000000000, cancelled = False\<rparr>]) \<and>
   maybeCleanup
     \<lparr>Resolution = 1000000000, Background = None,
      deadlines = Some [(1700000000000000000, \<lparr>d_context = 0, d_cancel = 0\<rparr>)],
      cleanupLock = 0, cleanupTime = 0\<rparr>
     [\<lparr>c_deadline = Some 1700000000000000000, cancelled = False\<rparr>] 1700000005000000000 =
     (\<lparr>Resolution = 1000000000, Background = None, deadlines = Some [],
       cleanupLock = 0, cleanupTime = 100000000000\<rparr>,
      [\<lparr>c_deadline = Some 1700000000000000000, cancelled = True\<rparr>]) \<and>
   getOrCreate
     \<lparr>Resolution = 1000000000, Background = None, deadlines = Some [],
      cleanupLock = 0, cleanupTime = 100000000000\<rparr>
     [\<lparr>c_deadline = Some 1700000000000000000, cancelled = True\<rparr>]
     1700000000000000000 1000000000 0 =
     Inr (\<lparr>d_context = 1, d_cancel = 1\<rparr>,
          \<lparr>Resolution = 1000000000, Background = None,
           deadlines = Some [(1700000000000000000, \<lparr>d_context = 1, d_cancel = 1\<rparr>)],
           cleanupLock = 0, cleanupTime = 100000000000\<rparr>,
          [\<lparr>c_deadline = Some 1700000000000000000, cancelled = True\<rparr>,
           \<lparr>c_deadline = Some 1700000000000000000, cancelled = False\<rparr>]) \<and>
   race (zeroTimeline 1000000000 None) [] 1700000000000000000
     [Locked 0, Swept 1700000005000000000, Locked 0] =
     Inr ([0, 1],
          \<lparr>Resolution = 1000000000, Background = None,
           deadlines = Some [(1700000000000000000, \<lparr>d_context = 1, d_cancel = 1\<rparr>)],
           cleanupLock = 0, cleanupTime = 100000000000\<rparr>,
          [\<lparr>c_deadline = Some 1700000000000000000, cancelled = True\<rparr>,
           \<lparr>c_deadline = Some 1700000000000000000, cancelled = False\<rparr>])"
  by (simp add: model_ev)

section \<open>C9: a negative resolution\<close>

text \<open>
  Claim C9. On a timeline whose \<open>Resolution\<close> is negative, \<open>resolution()\<close> returns it
  unchanged, \<open>jitter\<close> of it panics, and so does every call of \<open>Context\<close>, \<open>Deadline\<close>
  or \<open>Timeout\<close> that misses the cache.
\<close>

theorem negative_resolution_panics:
  assumes "Resolution t < 0"
  shows "resolution t = Resolution t \<and>
         jitter (resolution t) rnd = Inl Int63nInvalidArgument \<and>
         (lookup (deadlines t) (bucketKey (resolution t) (UnixNano at)) = None \<longrightarrow>
            Context t h at now rnd = Inl Int63nInvalidArgument \<and>
            Deadline t h now at rnd = Inl Int63nInvalidArgument) \<and>
         (lookup (deadlines t) (bucketKey (resolution t) (UnixNano (Add now timeout))) = None \<longrightarrow>
            Timeout t h now timeout rnd = Inl Int63nInvalidArgument)"
proof -
  have r: "resolution t = Resolution t" using assms by (simp add: resolution_def)
  then have neg: "resolution t \<le> 0" using assms by simp
  have "jitter (resolution t) rnd = Inl Int63nInvalidArgument"
    using neg by (simp add: jitter_def)
  then show ?thesis
    using r neg by (simp add: Context_panic Deadline_def Timeout_def)
qed

theorem negative_resolution_panics_witness:
  "Resolution (zeroTimeline (- 5) None) < 0 \<and>
   lookup (deadlines (zeroTimeline (- 5) None))
     (bucketKey (resolution (zeroTimeline (- 5) None)) (UnixNano 7)) = None \<and>
   resolution (zeroTimeline (- 5) None) = - 5 \<and>
   Context (zeroTimeline (- 5) None) [] 7 0 3 = Inl Int63nInvalidArgument \<and>
   Deadline (zeroTimeline (- 5) None) [] 0 7 3 = Inl Int63nInvalidArgument \<and>
   Timeout (zeroTimeline (- 5) None) [] 0 7 3 = Inl Int63nInvalidArgument"
  using negative_resolution_panics
    [where t = "zeroTimeline (- 5) None" and h = "[]" and at = 7 and now = 0 and rnd = 3
       and timeout = 7]
  by (simp add: zeroTimeline_def lookup_def entries_def Add_def)

section \<open>C10: Cancel on an empty timeline\<close>

text \<open>
  Claim C10. \<open>Cancel\<close> on a timeline with no bucket entries, its map nil or empty,
  cancels nothing and leaves the map nil; on a nil map it changes nothing at all.
  \<open>Cancel\<close> is idempotent: a second \<open>Cancel\<close> changes nothing. \<open>Cancel\<close> has no
  failing branch.
\<close>

theorem Cancel_empty_noop:
  "(entries (deadlines t) = [] \<longrightarrow> Cancel t h = (t\<lparr>deadlines := None\<rparr>, h)) \<and>
   (deadlines t = None \<longrightarrow> Cancel t h = (t, h)) \<and>
   Cancel (fst (Cancel t h)) (snd (Cancel t h)) = Cancel t h"
  by (simp add: Cancel_def entries_def)

theorem Cancel_empty_noop_witness:
  "Cancel (zeroTimeline 0 None) [] = (zeroTimeline 0 None, []) \<and>
   Cancel ((zeroTimeline 0 None)\<lparr>deadlines := Some []\<rparr>) [backgroundCtx] =
     (zeroTimeline 0 None, [backgroundCtx]) \<and>
   Cancel (fst (Cancel (zeroTimeline 0 None) [])) (snd (Cancel (zeroTimeline 0 None) [])) =
     (zeroTimeline 0 None, [])"
  using Cancel_empty_noop [of "zeroTimeline 0 None" "[]"]
    Cancel_empty_noop [of "(zeroTimeline 0 None)\<lparr>deadlines := Some []\<rparr>" "[backgroundCtx]"]
  by (simp add: zeroTimeline_def entries_def)

end
